theory Spec2Isabelle
  imports Complex_Main
begin

section \<open>Errors raised by the renderer\<close>

text \<open>Every \<^verbatim>\<open>throw Error(...)\<close> of \<^verbatim>\<open>LongScroll.ts\<close> and \<^verbatim>\<open>Scheduler.ts\<close> that the
  modelled functions can reach is a constructor; \<open>TaskCancelledError\<close> is the class of that
  name.\<close>

datatype error =
    RangeTopAboveBottom
  | NoSamplesYet
  | ShouldntBeFreeing
  | MustBeEmpty
  | TaskAlreadyResolved
  | AlreadyFulfilledBug
  | TaskCancelledError
  | OutOfBounds

definition bindE :: "error + 'a \<Rightarrow> ('a \<Rightarrow> error + 'b) \<Rightarrow> error + 'b" where
  "bindE m f = (case m of Inl e \<Rightarrow> Inl e | Inr x \<Rightarrow> f x)"

section \<open>Range\<close>

text \<open>A half-open interval \<open>[top, bot)\<close>. Row indices are whole numbers, so the row-space
  ranges of the block set are modelled over \<open>int\<close>. The getters \<^verbatim>\<open>top\<close> and \<^verbatim>\<open>bot\<close> are
  the fields \<open>topR\<close> and \<open>botR\<close>.\<close>

record Range =
  topR :: int
  botR :: int

definition new_Range :: "int \<Rightarrow> int \<Rightarrow> error + Range" where
  "new_Range t b = (if t > b then Inl RangeTopAboveBottom else Inr \<lparr>topR = t, botR = b\<rparr>)"

definition height :: "Range \<Rightarrow> int" where
  "height r = botR r - topR r"

definition containsNum :: "Range \<Rightarrow> int \<Rightarrow> bool" where
  "containsNum r a = (a \<ge> topR r \<and> a < botR r)"

definition containsRange :: "Range \<Rightarrow> Range \<Rightarrow> bool" where
  "containsRange r a =
     (if height a = 0 then True else containsNum r (topR a) \<and> containsNum r (botR a - 1))"

definition equals :: "Range \<Rightarrow> Range \<Rightarrow> bool" where
  "equals r other = (topR r = topR other \<and> botR r = botR other)"

text \<open>\<^verbatim>\<open>clampTo\<close> copies the receiver (a range built by the constructor, so the copy cannot
  throw) and then overwrites the private fields one after the other.\<close>

definition clampTo :: "Range \<Rightarrow> Range \<Rightarrow> Range" where
  "clampTo this other =
     (let r = \<lparr>topR = topR this, botR = botR this\<rparr>;
          r = (if topR other > topR r then r\<lparr>topR := topR other\<rparr> else r);
          r = (if botR other < botR r then r\<lparr>botR := botR other\<rparr> else r);
          r = (if topR r > botR r then r\<lparr>topR := botR r\<rparr> else r)
      in r)"

definition clampNum :: "Range \<Rightarrow> int \<Rightarrow> int" where
  "clampNum r i =
     (if i < topR r then topR r
      else if i > botR r then botR r - 1
      else i)"

section \<open>AveragedValue and AnimationFrameTimer\<close>

record AveragedValue =
  samples :: "real list"
  maxSamples :: nat

definition new_AveragedValue :: "nat \<Rightarrow> AveragedValue" where
  "new_AveragedValue n = \<lparr>samples = [], maxSamples = n\<rparr>"

text \<open>\<^verbatim>\<open>push\<close> appends, \<^verbatim>\<open>shift\<close> drops the first element.\<close>

definition addValue :: "real \<Rightarrow> AveragedValue \<Rightarrow> AveragedValue" where
  "addValue v a =
     (let pushed = samples a @ [v]
      in if length pushed \<ge> maxSamples a then a\<lparr>samples := tl pushed\<rparr>
         else a\<lparr>samples := pushed\<rparr>)"

definition get_avg :: "AveragedValue \<Rightarrow> error + real" where
  "get_avg a =
     (if samples a = [] then Inl NoSamplesYet
      else Inr (foldl (+) 0 (samples a) / real (length (samples a))))"

record AnimationFrameTimer =
  lastFrameAt :: real
  lastFrameDuration :: real
  averagedFrameTime :: AveragedValue

text \<open>The constructor, given the value of \<^verbatim>\<open>Date.now()\<close>.\<close>

definition new_AnimationFrameTimer :: "real \<Rightarrow> AnimationFrameTimer" where
  "new_AnimationFrameTimer now =
     \<lparr>lastFrameAt = now, lastFrameDuration = -1, averagedFrameTime = new_AveragedValue 5\<rparr>"

text \<open>\<^verbatim>\<open>tick\<close>, given the value of \<^verbatim>\<open>Date.now()\<close>; the callback and the re-queueing of the
  animation frame do not touch the timer's measurements.\<close>

definition tick :: "real \<Rightarrow> AnimationFrameTimer \<Rightarrow> AnimationFrameTimer" where
  "tick timeNow t =
     (let d = timeNow - lastFrameAt t
      in t\<lparr>lastFrameDuration := d,
            averagedFrameTime := addValue d (averagedFrameTime t),
            lastFrameAt := timeNow\<rparr>)"

text \<open>\<^verbatim>\<open>start\<close>, given the value of \<^verbatim>\<open>Date.now()\<close>; the coordinator calls it right after
  the constructor.\<close>

definition start :: "real \<Rightarrow> AnimationFrameTimer \<Rightarrow> AnimationFrameTimer" where
  "start now t = t\<lparr>lastFrameAt := now\<rparr>"

definition getLastFrameDuration :: "AnimationFrameTimer \<Rightarrow> real" where
  "getLastFrameDuration t = lastFrameDuration t"

definition getAveragedFrameTime :: "AnimationFrameTimer \<Rightarrow> error + real" where
  "getAveragedFrameTime t = get_avg (averagedFrameTime t)"

section \<open>VelTracker\<close>

record VelTracker =
  lastTime :: real
  lastPos :: real
  lastVel :: real

definition decayStartTime :: real where "decayStartTime = 50"
definition decayTime :: real where "decayTime = 200"

definition new_VelTracker :: VelTracker where
  "new_VelTracker = \<lparr>lastTime = 0, lastPos = -1, lastVel = 0\<rparr>"

text \<open>Both methods read \<^verbatim>\<open>Date.now()\<close>, which is the first argument here.\<close>

definition onScroll :: "real \<Rightarrow> real \<Rightarrow> VelTracker \<Rightarrow> VelTracker" where
  "onScroll currTime scrollPos v =
     (if lastPos v = -1 then v\<lparr>lastTime := currTime, lastPos := scrollPos\<rparr>
      else
        let delta = scrollPos - lastPos v;
            deltaT = max 1 (currTime - lastTime v);
            newVel = delta / deltaT
        in v\<lparr>lastVel := lastVel v * 0.8 + newVel * 0.2,
              lastTime := currTime,
              lastPos := scrollPos\<rparr>)"

definition getVel :: "real \<Rightarrow> VelTracker \<Rightarrow> real \<times> VelTracker" where
  "getVel now v =
     (let deltaT = now - lastTime v
      in if deltaT < decayStartTime then (lastVel v, v)
         else if deltaT \<ge> decayTime then (0, v\<lparr>lastVel := 0\<rparr>)
         else (lastVel v * (1 - deltaT / decayTime), v))"

section \<open>Scheduler\<close>

text \<open>Owners are object references compared with \<^verbatim>\<open>===\<close>: the coordinator, its block set, or
  a block, told apart by the identity \<open>bid\<close> given to it at construction.\<close>

datatype owner = OwnerLongScroll | OwnerBlockSet | OwnerBlock nat

record SchedulerEvent =
  lastFrameTime :: real
  loadFactor :: real

datatype TaskState = Pending | Fulfilled | Rejected

datatype phase = ReadPhase | WritePhase | IdleWritePhase

text \<open>What a suspended caller does once its promise is fulfilled, as far as the scheduler can
  see it: the calls to \<^verbatim>\<open>scheduleRead\<close>, \<^verbatim>\<open>scheduleWrite\<close> and \<^verbatim>\<open>scheduleIdleWrite\<close> it makes, in
  order, each with the owner it passes and the continuation that awaits the new promise.\<close>

datatype continuation = Continuation "(phase \<times> owner \<times> continuation) list"

datatype settlement = Unsettled | ResolvedWith SchedulerEvent | RejectedWith error

text \<open>A \<^verbatim>\<open>Task\<close>. Its promise is the pair of \<open>promise\<close>, how it has been settled, and
  \<open>onResume\<close>, the reaction its caller registered with \<^verbatim>\<open>await\<close> or \<^verbatim>\<open>then\<close>. The private
  \<^verbatim>\<open>resolveP\<close> and \<^verbatim>\<open>rejectP\<close> are only called by \<^verbatim>\<open>run\<close> and \<^verbatim>\<open>cancel\<close>, behind the check
  that the task is still pending, so they always act on an unsettled promise.\<close>

record Task =
  owner :: owner
  state :: TaskState
  promise :: settlement
  onResume :: continuation

definition new_Task :: "owner \<Rightarrow> continuation \<Rightarrow> Task" where
  "new_Task ownr k = \<lparr>owner = ownr, state = Pending, promise = Unsettled, onResume = k\<rparr>"

definition run :: "SchedulerEvent \<Rightarrow> Task \<Rightarrow> error + Task" where
  "run evt t =
     (if state t \<noteq> Pending then Inl TaskAlreadyResolved
      else Inr (t\<lparr>state := Fulfilled, promise := ResolvedWith evt\<rparr>))"

definition cancel :: "error \<Rightarrow> Task \<Rightarrow> error + Task" where
  "cancel err t =
     (if state t \<noteq> Pending then Inl TaskAlreadyResolved
      else Inr (t\<lparr>state := Rejected, promise := RejectedWith err\<rparr>))"

text \<open>The scheduler: its three queues, and \<open>jobs\<close>, the reactions of fulfilled promises that
  the JavaScript engine has queued and not yet run. Fulfilling a promise never runs a reaction
  on the spot: the engine runs it as a job of its own once the code that is running has
  returned or reached an \<^verbatim>\<open>await\<close>.\<close>

record Scheduler =
  readQueue :: "Task list"
  writeQueue :: "Task list"
  idleWriteQueue :: "Task list"
  jobs :: "continuation list"

definition new_Scheduler :: Scheduler where
  "new_Scheduler = \<lparr>readQueue = [], writeQueue = [], idleWriteQueue = [], jobs = []\<rparr>"

definition queueOf :: "phase \<Rightarrow> Scheduler \<Rightarrow> Task list" where
  "queueOf p s = (case p of ReadPhase \<Rightarrow> readQueue s | WritePhase \<Rightarrow> writeQueue s
                  | IdleWritePhase \<Rightarrow> idleWriteQueue s)"

definition setQueue :: "phase \<Rightarrow> Task list \<Rightarrow> Scheduler \<Rightarrow> Scheduler" where
  "setQueue p q s = (case p of ReadPhase \<Rightarrow> s\<lparr>readQueue := q\<rparr>
                     | WritePhase \<Rightarrow> s\<lparr>writeQueue := q\<rparr>
                     | IdleWritePhase \<Rightarrow> s\<lparr>idleWriteQueue := q\<rparr>)"

text \<open>\<^verbatim>\<open>makeTaskForQueue\<close> with \<^verbatim>\<open>addTask\<close>: the new task goes to the back of the queue.\<close>

definition makeTaskForQueue :: "owner \<Rightarrow> phase \<Rightarrow> continuation \<Rightarrow> Scheduler \<Rightarrow> Scheduler" where
  "makeTaskForQueue ownr p k s = setQueue p (queueOf p s @ [new_Task ownr k]) s"

definition scheduleRead :: "owner \<Rightarrow> continuation \<Rightarrow> Scheduler \<Rightarrow> Scheduler" where
  "scheduleRead ownr k s = makeTaskForQueue ownr ReadPhase k s"

definition scheduleWrite :: "owner \<Rightarrow> continuation \<Rightarrow> Scheduler \<Rightarrow> Scheduler" where
  "scheduleWrite ownr k s = makeTaskForQueue ownr WritePhase k s"

definition scheduleIdleWrite :: "owner \<Rightarrow> continuation \<Rightarrow> Scheduler \<Rightarrow> Scheduler" where
  "scheduleIdleWrite ownr k s = makeTaskForQueue ownr IdleWritePhase k s"

text \<open>The loop of \<^verbatim>\<open>executeTasks\<close> from index \<open>i\<close>. It runs without interruption, so the queue it
  walks is the queue it started with; each task it runs is marked in place and its reaction is
  queued as a job. The result is the walked queue and the jobs queued.\<close>

function executeLoop ::
  "SchedulerEvent \<Rightarrow> nat \<Rightarrow> Task list \<Rightarrow> continuation list \<Rightarrow> error + (Task list \<times> continuation list)"
where
  "executeLoop evt i q js =
     (if i < length q then
        (let task = q ! i in
         if state task = Rejected then executeLoop evt (i + 1) q js
         else if state task = Fulfilled then Inl AlreadyFulfilledBug
         else (case run evt task of
                 Inl e \<Rightarrow> Inl e
               | Inr t' \<Rightarrow> executeLoop evt (i + 1) (q[i := t']) (js @ [onResume task])))
      else Inr (q, js))"
  by pat_completeness auto
termination
  by (relation "measure (\<lambda>(evt, i, q, js). length q - i)") auto

declare executeLoop.simps [simp del]

text \<open>\<^verbatim>\<open>executeTasks\<close> up to its \<^verbatim>\<open>await\<close>: the loop, then \<^verbatim>\<open>this.queue = []\<close>.\<close>

definition executeTasks :: "SchedulerEvent \<Rightarrow> phase \<Rightarrow> Scheduler \<Rightarrow> error + Scheduler" where
  "executeTasks evt p s =
     (case executeLoop evt 0 (queueOf p s) (jobs s) of
        Inl e \<Rightarrow> Inl e
      | Inr (q, js) \<Rightarrow> Inr ((setQueue p [] s)\<lparr>jobs := js\<rparr>))"

text \<open>Running one queued reaction: the resumed caller makes its scheduling calls.\<close>

fun resume :: "continuation \<Rightarrow> Scheduler \<Rightarrow> Scheduler" where
  "resume (Continuation calls) s =
     foldl (\<lambda>s' (p, ownr, k). makeTaskForQueue ownr p k s') s calls"

text \<open>The \<^verbatim>\<open>await\<close> that ends \<^verbatim>\<open>executeTasks\<close> lets the engine run the queued jobs, oldest
  first, before \<^verbatim>\<open>doBatched\<close> goes on.\<close>

definition runJobs :: "Scheduler \<Rightarrow> Scheduler" where
  "runJobs s = foldl (\<lambda>s' k. resume k s') (s\<lparr>jobs := []\<rparr>) (jobs s)"

definition lowThresh :: real where "lowThresh = 25"
definition hiThresh :: real where "hiThresh = 50"
definition maxLoad :: real where "maxLoad = 0.95"
definition DEBUGMAXLOAD :: bool where "DEBUGMAXLOAD = False"

definition getLoadFactor :: "AnimationFrameTimer \<Rightarrow> error + real" where
  "getLoadFactor timer =
     (if DEBUGMAXLOAD then Inr 1
      else bindE (getAveragedFrameTime timer) (\<lambda>frameTime.
        let lf = (frameTime - lowThresh) / (hiThresh - lowThresh)
        in Inr (max 0 (min maxLoad lf))))"

definition doBatched :: "AnimationFrameTimer \<Rightarrow> Scheduler \<Rightarrow> error + Scheduler" where
  "doBatched timer s =
     bindE (getLoadFactor timer) (\<lambda>lf.
       let schedEvent = \<lparr>lastFrameTime = getLastFrameDuration timer, loadFactor = lf\<rparr> in
       bindE (executeTasks schedEvent ReadPhase s) (\<lambda>s1.
       bindE (executeTasks schedEvent WritePhase (runJobs s1)) (\<lambda>s2.
       bindE (executeTasks schedEvent IdleWritePhase (runJobs s2)) (\<lambda>s3.
       Inr (runJobs s3)))))"

text \<open>The loop of \<^verbatim>\<open>clearTasksBy\<close> from index \<open>i\<close>.\<close>

function clearLoop :: "owner \<Rightarrow> nat \<Rightarrow> Task list \<Rightarrow> error + Task list" where
  "clearLoop ownerObj i q =
     (if i < length q then
        (let task = q ! i in
         if owner task = ownerObj \<and> state task = Pending then
           (case cancel TaskCancelledError (q ! i) of
              Inl e \<Rightarrow> Inl e
            | Inr t' \<Rightarrow> clearLoop ownerObj (i + 1) (q[i := t']))
         else clearLoop ownerObj (i + 1) q)
      else Inr q)"
  by pat_completeness auto
termination
  by (relation "measure (\<lambda>(ownerObj, i, q). length q - i)") auto

declare clearLoop.simps [simp del]

definition clearTasksBy :: "owner \<Rightarrow> phase \<Rightarrow> Scheduler \<Rightarrow> error + Scheduler" where
  "clearTasksBy ownerObj p s =
     (case clearLoop ownerObj 0 (queueOf p s) of
        Inl e \<Rightarrow> Inl e
      | Inr q \<Rightarrow> Inr (setQueue p q s))"

definition cancelJobs :: "owner \<Rightarrow> Scheduler \<Rightarrow> error + Scheduler" where
  "cancelJobs ownr s =
     bindE (clearTasksBy ownr ReadPhase s) (\<lambda>s1.
     bindE (clearTasksBy ownr WritePhase s1) (\<lambda>s2.
     clearTasksBy ownr IdleWritePhase s2))"

section \<open>Block\<close>

text \<open>The row elements come from the data source, which is outside the renderer. An element
  is known here by the call that made it: \<^verbatim>\<open>makeDummyDom(i)\<close> or \<^verbatim>\<open>makeDom(i)\<close>.\<close>

datatype Element = DummyElement int | RealElement int

text \<open>The calls the block set and its blocks make on the scheduler, the data source and the
  document, in the order they make them.\<close>

datatype call =
    ScheduleWrite owner
  | CancelJobs owner
  | MakeDummyDom int
  | MakeDom int
  | FreeDummyDom int "Element option"
  | FreeDom int "Element option"
  | DomDispose nat
  | ClearOuterHTMLIfAttached nat
  | RenderLater

record Block =
  bid :: nat
  rangeB :: Range
  dirty :: bool
  dummyDoms :: "Element list"
  doms :: "Element list option"

definition isPrepared :: "Block \<Rightarrow> bool" where
  "isPrepared b = (doms b \<noteq> None)"

definition getRange :: "Block \<Rightarrow> Range" where
  "getRange b = rangeB b"

text \<open>\<^verbatim>\<open>Range.forEach\<close>: the pairs \<open>(i, offset)\<close> its callback is given, in order.\<close>

definition forEach :: "Range \<Rightarrow> (int \<times> nat) list" where
  "forEach r = map (\<lambda>i. (i, nat (i - topR r))) [topR r..botR r - 1]"

text \<open>Reading an array at an index it does not have gives \<^verbatim>\<open>undefined\<close>, here \<open>None\<close>.\<close>

definition elemAt :: "'a list \<Rightarrow> nat \<Rightarrow> 'a option" where
  "elemAt xs n = (if n < length xs then Some (xs ! n) else None)"

text \<open>\<^verbatim>\<open>prepareDummyDoms\<close> asks \<^verbatim>\<open>getRowHeight(i)\<close> for each row, which throws outside
  \<open>[0, N)\<close>.\<close>

definition prepareDummyDoms :: "int \<Rightarrow> Range \<Rightarrow> error + (Element list \<times> call list)" where
  "prepareDummyDoms N r =
     (if list_ex (\<lambda>(i, offset). i < 0 \<or> i \<ge> N) (forEach r) then Inl OutOfBounds
      else Inr (map (\<lambda>(i, offset). DummyElement i) (forEach r),
                map (\<lambda>(i, offset). MakeDummyDom i) (forEach r)))"

text \<open>The constructor of \<^verbatim>\<open>BlockImpl\<close>, for the block of identity \<open>ident\<close>: it schedules the
  write that attaches the block's element, then builds the placeholders.\<close>

definition new_BlockImpl :: "int \<Rightarrow> nat \<Rightarrow> Range \<Rightarrow> error + (Block \<times> call list)" where
  "new_BlockImpl N ident r =
     bindE (prepareDummyDoms N r) (\<lambda>(ds, cs).
       Inr (\<lparr>bid = ident, rangeB = r, dirty = True, dummyDoms = ds, doms = None\<rparr>,
            ScheduleWrite (OwnerBlock ident) # cs))"

text \<open>\<^verbatim>\<open>prepare\<close>. The data source is declared to return elements, so the test that throws
  when \<^verbatim>\<open>makeDom\<close> returns something else has no branch here.\<close>

definition prepare :: "Block \<Rightarrow> Block \<times> call list" where
  "prepare b =
     (b\<lparr>doms := Some (map (\<lambda>(i, offset). RealElement i) (forEach (rangeB b))), dirty := True\<rparr>,
      map (\<lambda>(i, offset). MakeDom i) (forEach (rangeB b)))"

definition free :: "Block \<Rightarrow> call list" where
  "free b =
     concat (map (\<lambda>(i, offset).
                FreeDummyDom i (elemAt (dummyDoms b) offset) #
                (case doms b of None \<Rightarrow> [] | Some ds \<Rightarrow> [FreeDom i (elemAt ds offset)]))
             (forEach (rangeB b)))
     @ [CancelJobs (OwnerBlock (bid b)), DomDispose (bid b), ClearOuterHTMLIfAttached (bid b)]"

text \<open>\<^verbatim>\<open>free\<close> together with the scheduler it acts on. Of the calls that \<^verbatim>\<open>free\<close> makes,
  \<^verbatim>\<open>cancelJobs(this)\<close> is the one that changes the scheduler; the result is the calls made and
  the scheduler as \<^verbatim>\<open>free\<close> leaves it.\<close>

definition freeIn :: "Block \<Rightarrow> Scheduler \<Rightarrow> error + (call list \<times> Scheduler)" where
  "freeIn b s = bindE (cancelJobs (OwnerBlock (bid b)) s) (\<lambda>s'. Inr (free b, s'))"

section \<open>BlockSet\<close>

definition initialBlockSize :: int where "initialBlockSize = 19"
definition preferredBlockTime :: real where "preferredBlockTime = 12"
definition minBlockSize :: int where "minBlockSize = 5"

text \<open>The fields of \<^verbatim>\<open>BlockSetImpl\<close>, with \<open>nextId\<close>, the identity the next constructed block
  gets, and \<open>calls\<close>, the calls made so far. The length of the data source, \<open>N\<close>, is read from
  the coordinator and is an argument of the functions that read it.\<close>

record BlockSet =
  blocks :: "Block list"
  targetRange :: Range
  leaveRange :: Range
  targetRow :: int
  preferredBlockSize :: int
  lastTimes :: "real list"
  nextId :: nat
  calls :: "call list"

text \<open>The constructor. \<^verbatim>\<open>targetRange\<close>, \<^verbatim>\<open>leaveRange\<close> and \<^verbatim>\<open>targetRow\<close> are not assigned
  before the first \<^verbatim>\<open>setTarget\<close>, and nothing reads them before that while a block exists.\<close>

definition new_BlockSetImpl :: BlockSet where
  "new_BlockSetImpl =
     \<lparr>blocks = [], targetRange = \<lparr>topR = 0, botR = 0\<rparr>, leaveRange = \<lparr>topR = 0, botR = 0\<rparr>,
      targetRow = 0, preferredBlockSize = initialBlockSize, lastTimes = [], nextId = 0,
      calls = []\<rparr>"

definition getCoveredRange :: "BlockSet \<Rightarrow> error + Range" where
  "getCoveredRange s =
     (if blocks s = [] then new_Range 0 0
      else new_Range (topR (getRange (hd (blocks s)))) (botR (getRange (last (blocks s)))))"

text \<open>\<^verbatim>\<open>debug\<close> prints the set, which computes the covered range, then checks the ranges.\<close>

definition debug :: "BlockSet \<Rightarrow> error + unit" where
  "debug s =
     bindE (getCoveredRange s) (\<lambda>_.
       if \<not> containsRange (leaveRange s) (targetRange s) then Inl ShouldntBeFreeing
       else Inr ())"

definition createBlockClamped :: "int \<Rightarrow> Range \<Rightarrow> BlockSet \<Rightarrow> error + (Block \<times> BlockSet)" where
  "createBlockClamped N r s =
     bindE (new_Range 0 N) (\<lambda>bounds.
       let clampedRange = clampTo r bounds in
       bindE (new_BlockImpl N (nextId s) clampedRange) (\<lambda>(b, cs).
         Inr (b, s\<lparr>nextId := nextId s + 1, calls := calls s @ cs\<rparr>)))"

definition makeFirstBlockAt :: "int \<Rightarrow> int \<Rightarrow> BlockSet \<Rightarrow> error + BlockSet" where
  "makeFirstBlockAt N index s =
     (if blocks s \<noteq> [] then Inl MustBeEmpty
      else
        bindE (new_Range index (index + preferredBlockSize s)) (\<lambda>bRange.
        bindE (createBlockClamped N bRange s) (\<lambda>(newBlock, s').
          Inr (s'\<lparr>blocks := [newBlock]\<rparr>))))"

definition addBlockAtStart :: "int \<Rightarrow> BlockSet \<Rightarrow> error + BlockSet" where
  "addBlockAtStart N s =
     bindE (getCoveredRange s) (\<lambda>r.
     bindE (new_Range (topR r - preferredBlockSize s) (topR r)) (\<lambda>bRange.
     bindE (createBlockClamped N bRange s) (\<lambda>(newBlock, s').
       Inr (s'\<lparr>blocks := newBlock # blocks s'\<rparr>))))"

definition addBlockAtEnd :: "int \<Rightarrow> BlockSet \<Rightarrow> error + BlockSet" where
  "addBlockAtEnd N s =
     bindE (getCoveredRange s) (\<lambda>r.
     bindE (new_Range (botR r) (botR r + preferredBlockSize s)) (\<lambda>bRange.
     bindE (createBlockClamped N bRange s) (\<lambda>(newBlock, s').
       Inr (s'\<lparr>blocks := blocks s' @ [newBlock]\<rparr>))))"

definition freeBlockAtStart :: "BlockSet \<Rightarrow> BlockSet" where
  "freeBlockAtStart s =
     (case blocks s of
        [] \<Rightarrow> s
      | b # rest \<Rightarrow> s\<lparr>blocks := rest, calls := calls s @ free b\<rparr>)"

definition freeBlockAtEnd :: "BlockSet \<Rightarrow> BlockSet" where
  "freeBlockAtEnd s =
     (if blocks s = [] then s
      else s\<lparr>blocks := butlast (blocks s), calls := calls s @ free (last (blocks s))\<rparr>)"

text \<open>The two \<^verbatim>\<open>while\<close> statements of \<^verbatim>\<open>ensureCovers\<close> that free blocks.\<close>

function freeAbove :: "BlockSet \<Rightarrow> BlockSet" where
  "freeAbove s =
     (if blocks s \<noteq> [] \<and> botR (getRange (hd (blocks s))) \<le> topR (leaveRange s)
      then freeAbove (freeBlockAtStart s) else s)"
  by pat_completeness auto
termination
  by (relation "measure (\<lambda>s. length (blocks s))")
     (auto simp: freeBlockAtStart_def split: list.splits)

declare freeAbove.simps [simp del]

function freeBelow :: "BlockSet \<Rightarrow> BlockSet" where
  "freeBelow s =
     (if blocks s \<noteq> [] \<and> topR (getRange (last (blocks s))) \<ge> botR (leaveRange s)
      then freeBelow (freeBlockAtEnd s) else s)"
  by pat_completeness auto
termination
  by (relation "measure (\<lambda>s. length (blocks s))") (auto simp: freeBlockAtEnd_def)

declare freeBelow.simps [simp del]

text \<open>How a run of \<^verbatim>\<open>ensureCovers\<close> ends once it has been resumed: by the \<^verbatim>\<open>return\<close> inside
  the loop, when the target is covered, or by the loop running out of its 10 rounds.\<close>

datatype coverExit = ReturnedCovered | LoopExhausted

text \<open>The \<^verbatim>\<open>for\<close> loop of \<^verbatim>\<open>ensureCovers\<close>, with the number of rounds it has left.\<close>

fun coverLoop :: "int \<Rightarrow> Range \<Rightarrow> nat \<Rightarrow> BlockSet \<Rightarrow> error + (coverExit \<times> BlockSet)" where
  "coverLoop N targR 0 s = Inr (LoopExhausted, s)"
| "coverLoop N targR (Suc k) s =
     bindE (getCoveredRange s) (\<lambda>currR.
       if containsRange currR targR then Inr (ReturnedCovered, s)
       else
         bindE (if topR targR < topR currR then addBlockAtStart N s else Inr s) (\<lambda>s1.
         bindE (if botR targR > botR currR then addBlockAtEnd N s1 else Inr s1) (\<lambda>s2.
           coverLoop N targR k s2)))"

text \<open>\<^verbatim>\<open>ensureCovers\<close> up to its \<^verbatim>\<open>await\<close>: \<open>None\<close> when it returns at once, else the target it
  keeps in \<^verbatim>\<open>targR\<close> while it waits for its write task.\<close>

definition ensureCovers_begin :: "BlockSet \<Rightarrow> error + (Range option \<times> BlockSet)" where
  "ensureCovers_begin s =
     bindE (getCoveredRange s) (\<lambda>currR.
       let targR = targetRange s in
       if containsRange currR targR then Inr (None, s)
       else Inr (Some targR, s\<lparr>calls := calls s @ [ScheduleWrite OwnerBlockSet]\<rparr>))"

text \<open>\<^verbatim>\<open>ensureCovers\<close> from the moment its write task is fulfilled. It reads \<^verbatim>\<open>leaveRange\<close>
  and \<^verbatim>\<open>targetRow\<close> as they are now, and the target as it was when the run began.\<close>

definition ensureCovers_resume :: "int \<Rightarrow> Range \<Rightarrow> BlockSet \<Rightarrow> error + (coverExit \<times> BlockSet)" where
  "ensureCovers_resume N targR s =
     bindE (debug s) (\<lambda>_.
       let s1 = freeAbove s;
           s2 = freeBelow s1
       in bindE (if blocks s2 = [] then
                   (let halfBlock = preferredBlockSize s2 div 2
                    in makeFirstBlockAt N (targetRow s2 - halfBlock) s2)
                 else Inr s2) (\<lambda>s3.
            coverLoop N targR 10 s3))"

text \<open>\<^verbatim>\<open>Math.round\<close> rounds to the nearest whole number, a half upwards. It is applied to
  a whole number plus or minus a third of a whole number; the doubles computed for these round
  as the exact values do.\<close>

definition jsRound :: "real \<Rightarrow> int" where
  "jsRound x = \<lfloor>x + 1 / 2\<rfloor>"

definition setTarget :: "int \<Rightarrow> Range \<Rightarrow> int \<Rightarrow> BlockSet \<Rightarrow> error + (Range option \<times> BlockSet)" where
  "setTarget N rng startFrom s =
     (let s1 = s\<lparr>targetRow := startFrom, targetRange := rng\<rparr>;
          h = height rng;
          newTop = jsRound (real_of_int (topR rng) - real_of_int h / 3);
          newBot = jsRound (real_of_int (botR rng) + real_of_int h / 3)
      in bindE (new_Range newTop newBot) (\<lambda>wide.
         bindE (new_Range 0 N) (\<lambda>bounds.
           ensureCovers_begin (s1\<lparr>leaveRange := clampTo wide bounds\<rparr>))))"

subsection \<open>Preparing blocks\<close>

text \<open>The loop \<^verbatim>\<open>while(this.lastTimes.length > 5) shift()\<close>.\<close>

function keepFive :: "real list \<Rightarrow> real list" where
  "keepFive ts = (if length ts > 5 then keepFive (tl ts) else ts)"
  by pat_completeness auto
termination
  by (relation "measure length") auto

declare keepFive.simps [simp del]

text \<open>\<^verbatim>\<open>updateBlockTimes\<close>. The size is a whole number \<open>n\<close>, and \<^verbatim>\<open>Math.ceil\<close> of the double
  \<^verbatim>\<open>n * 0.2\<close> is the exact fifth of \<open>n\<close> rounded up: a multiple of 5 gives the whole number
  itself, any other \<open>n\<close> a double that is not near a whole number.\<close>

definition updateBlockTimes :: "real \<Rightarrow> BlockSet \<Rightarrow> BlockSet" where
  "updateBlockTimes time s =
     (let s1 = s\<lparr>lastTimes := keepFive (lastTimes s @ [time])\<rparr> in
      if length (lastTimes s1) = 5 then
        (let numOver = length (filter (\<lambda>t. t > preferredBlockTime) (lastTimes s1)) in
         if numOver \<ge> 4 then
           (let shrinkBy = \<lceil>real_of_int (preferredBlockSize s1) * 0.2\<rceil>
            in s1\<lparr>preferredBlockSize := max minBlockSize (preferredBlockSize s1 - shrinkBy),
                   lastTimes := []\<rparr>)
         else s1)
      else s1)"

text \<open>The search for the block that holds the target row, from index \<open>i\<close>; \<open>-1\<close> when there is
  none.\<close>

function findCenter :: "Block list \<Rightarrow> int \<Rightarrow> nat \<Rightarrow> int" where
  "findCenter bs row i =
     (if i < length bs then
        (if containsNum (getRange (bs ! i)) row then int i
         else findCenter bs row (i + 1))
      else -1)"
  by pat_completeness auto
termination
  by (relation "measure (\<lambda>(bs, row, i). length bs - i)") auto

declare findCenter.simps [simp del]

text \<open>The \<^verbatim>\<open>while\<close> loop of \<^verbatim>\<open>getNextUnpreparedBlock\<close>; the result is the index of the block
  it returns.\<close>

function walkOutward :: "Block list \<Rightarrow> int \<Rightarrow> nat \<Rightarrow> nat option" where
  "walkOutward bs back forward =
     (if back \<ge> 0 \<or> forward < length bs then
        (if back \<ge> 0 \<and> \<not> isPrepared (bs ! nat back) then Some (nat back)
         else if forward < length bs \<and> \<not> isPrepared (bs ! forward) then Some forward
         else walkOutward bs (back - 1) (forward + 1))
      else None)"
  by pat_completeness auto
termination
  by (relation "measure (\<lambda>(bs, back, forward). nat (back + 1) + (length bs - forward))") auto

declare walkOutward.simps [simp del]

definition getNextUnpreparedBlock :: "int \<Rightarrow> BlockSet \<Rightarrow> error + nat option" where
  "getNextUnpreparedBlock N s =
     bindE (new_Range 0 N) (\<lambda>bounds.
       let row = clampNum bounds (targetRow s);
           centerBlock = findCenter (blocks s) row 0
       in if centerBlock = -1 then Inr None
          else Inr (walkOutward (blocks s) centerBlock (nat (centerBlock + 1))))"

text \<open>\<^verbatim>\<open>doPrepare\<close> on the block at index \<open>k\<close>, where \<open>deltaT\<close> is the time \<^verbatim>\<open>prepare\<close> took.\<close>

definition doPrepare :: "nat \<Rightarrow> real \<Rightarrow> BlockSet \<Rightarrow> BlockSet" where
  "doPrepare k deltaT s =
     (let (b', cs) = prepare (blocks s ! k);
          s1 = s\<lparr>blocks := (blocks s)[k := b'], calls := calls s @ cs\<rparr>;
          h = height (getRange b');
          s2 = (if h = preferredBlockSize s1 then updateBlockTimes deltaT s1 else s1)
      in s2\<lparr>calls := calls s2 @ [RenderLater]\<rparr>)"

text \<open>\<^verbatim>\<open>doWork\<close>. \<open>DEBUG\<close> is the property of that name read off the coordinator, \<open>u\<close> the value
  \<^verbatim>\<open>Math.random()\<close> returns and \<open>deltaT\<close> the time \<^verbatim>\<open>prepare\<close> takes.\<close>

definition doWork :: "bool \<Rightarrow> int \<Rightarrow> SchedulerEvent \<Rightarrow> real \<Rightarrow> real \<Rightarrow> BlockSet \<Rightarrow> error + BlockSet" where
  "doWork DEBUG N evt u deltaT s =
     (if DEBUG then Inr s
      else
        bindE (getNextUnpreparedBlock N s) (\<lambda>b.
          case b of
            None \<Rightarrow> Inr s
          | Some k \<Rightarrow>
              (let shouldRun = (u > loadFactor evt)
               in if \<not> shouldRun then Inr s else Inr (doPrepare k deltaT s))))"

subsection \<open>Runs of the block set\<close>

text \<open>What happens to a block set, as far as its blocks are concerned: \<^verbatim>\<open>setTarget\<close> is
  called; the write phase of a drain comes round and resumes, oldest first, every run of
  \<^verbatim>\<open>ensureCovers\<close> that waits for its write task; or \<^verbatim>\<open>doWork\<close> is called, with the draw and
  the time that \<^verbatim>\<open>prepare\<close> takes.\<close>

datatype event = SetTarget Range int | WritesDrained | WorkDone SchedulerEvent real real

text \<open>The state of a run: the block set, the targets of the runs of \<^verbatim>\<open>ensureCovers\<close> that wait
  for their write task, and how the runs resumed since the last call of \<^verbatim>\<open>setTarget\<close> have
  ended.\<close>

type_synonym runState = "BlockSet \<times> Range list \<times> coverExit list"

fun resumeAll ::
  "int \<Rightarrow> Range list \<Rightarrow> BlockSet \<Rightarrow> coverExit list \<Rightarrow> error + (BlockSet \<times> coverExit list)"
where
  "resumeAll N [] s exits = Inr (s, exits)"
| "resumeAll N (t # ts) s exits =
     (case ensureCovers_resume N t s of
        Inl e \<Rightarrow> Inl e
      | Inr (x, s') \<Rightarrow> resumeAll N ts s' (exits @ [x]))"

fun step :: "int \<Rightarrow> event \<Rightarrow> runState \<Rightarrow> error + runState" where
  "step N (SetTarget r f) (s, pend, exits) =
     bindE (setTarget N r f s) (\<lambda>(t, s').
       Inr (s', pend @ (case t of None \<Rightarrow> [] | Some x \<Rightarrow> [x]), []))"
| "step N WritesDrained (s, pend, exits) =
     bindE (resumeAll N pend s exits) (\<lambda>(s', exits'). Inr (s', [], exits'))"
| "step N (WorkDone evt u deltaT) (s, pend, exits) =
     bindE (doWork False N evt u deltaT s) (\<lambda>s'. Inr (s', pend, exits))"

fun runEvents :: "int \<Rightarrow> event list \<Rightarrow> runState \<Rightarrow> error + runState" where
  "runEvents N [] st = Inr st"
| "runEvents N (ev # evs) st =
     (case step N ev st of Inl e \<Rightarrow> Inl e | Inr st' \<Rightarrow> runEvents N evs st')"

text \<open>A call \<^verbatim>\<open>setTarget(range, focus)\<close> with the range within \<open>[0, N)\<close> and the focus a row.\<close>

fun eventOK :: "int \<Rightarrow> event \<Rightarrow> bool" where
  "eventOK N (SetTarget r f) =
     (0 \<le> topR r \<and> topR r \<le> botR r \<and> botR r \<le> N \<and> 0 \<le> f \<and> f < N)"
| "eventOK N WritesDrained = True"
| "eventOK N (WorkDone evt u deltaT) = True"

text \<open>The one place that calls \<^verbatim>\<open>setTarget\<close> is \<^verbatim>\<open>updateViewport\<close>. From the two rows that
  \<^verbatim>\<open>getClampedRowAtPx\<close> gives it for the top and the bottom of the region to buffer, it builds
  the range that ends one past the second row and takes the middle of the two ends, rounded
  down, as the focus.\<close>

definition updateViewport_target :: "int \<Rightarrow> int \<Rightarrow> error + event" where
  "updateViewport_target rowAtTop rowAtBot =
     (let rowStart = rowAtTop;
          rowEnd = rowAtBot + 1
      in bindE (new_Range rowStart rowEnd) (\<lambda>rowsToBuffer.
           let startRenderingFrom = (rowStart + rowEnd) div 2
           in Inr (SetTarget rowsToBuffer startRenderingFrom)))"

text \<open>The ranges of the live blocks, in order, and what is asked of them.\<close>

definition ranges :: "BlockSet \<Rightarrow> Range list" where
  "ranges s = map getRange (blocks s)"

definition contiguous :: "Range list \<Rightarrow> bool" where
  "contiguous rs = successively (\<lambda>a b. botR a = topR b) rs"

definition strictlyOrdered :: "Range list \<Rightarrow> bool" where
  "strictlyOrdered rs = sorted_wrt (\<lambda>a b. topR a < topR b \<and> botR a \<le> topR b) rs"

definition withinRows :: "int \<Rightarrow> Range \<Rightarrow> bool" where
  "withinRows N r = (0 \<le> topR r \<and> topR r \<le> botR r \<and> botR r \<le> N)"

definition liveOK :: "int \<Rightarrow> Range list \<Rightarrow> bool" where
  "liveOK N rs =
     (contiguous rs \<and> list_all (\<lambda>r. 0 \<le> topR r \<and> topR r < botR r \<and> botR r \<le> N) rs)"

definition coveredOf :: "Range list \<Rightarrow> Range" where
  "coveredOf rs =
     (if rs = [] then \<lparr>topR = 0, botR = 0\<rparr>
      else \<lparr>topR = topR (hd rs), botR = botR (last rs)\<rparr>)"

definition covers :: "Range list \<Rightarrow> Range \<Rightarrow> bool" where
  "covers rs t = (botR t \<le> topR t \<or> (rs \<noteq> [] \<and> topR (hd rs) \<le> topR t \<and> botR t \<le> botR (last rs)))"

text \<open>Two states of the block set with the same targets and the same preferred size.\<close>

definition sameTargets :: "BlockSet \<Rightarrow> BlockSet \<Rightarrow> bool" where
  "sameTargets s s' =
     (targetRange s' = targetRange s \<and> leaveRange s' = leaveRange s
      \<and> targetRow s' = targetRow s \<and> preferredBlockSize s' = preferredBlockSize s)"

text \<open>What holds of a run after every event: the live blocks are in order, the targets are
  rows, the leave range holds the target range, and the target range is covered unless the
  run of \<^verbatim>\<open>ensureCovers\<close> for it still waits or was the last one resumed and was cut off
  after its 10 rounds.\<close>

definition runInv :: "int \<Rightarrow> runState \<Rightarrow> bool" where
  "runInv N st =
     (case st of (s, pend, exits) \<Rightarrow>
        liveOK N (ranges s) \<and> 5 \<le> preferredBlockSize s
        \<and> withinRows N (targetRange s) \<and> containsRange (leaveRange s) (targetRange s)
        \<and> (pend \<noteq> [] \<longrightarrow> 0 \<le> targetRow s \<and> targetRow s < N)
        \<and> list_all (withinRows N) pend
        \<and> (covers (ranges s) (targetRange s)
            \<or> (pend \<noteq> [] \<and> last pend = targetRange s)
            \<or> (pend = [] \<and> exits \<noteq> [] \<and> last exits = LoopExhausted)))"

text \<open>A call \<^verbatim>\<open>setTarget(range, focus)\<close> with the focus inside the range and the range no
  more than 34 rows high, and what such calls add to what holds of a run.\<close>

fun eventSmall :: "event \<Rightarrow> bool" where
  "eventSmall (SetTarget r f) = (topR r \<le> f \<and> f < botR r \<and> height r \<le> 34)"
| "eventSmall WritesDrained = True"
| "eventSmall (WorkDone evt u deltaT) = True"

definition runInvSmall :: "runState \<Rightarrow> bool" where
  "runInvSmall st =
     (case st of (s, pend, exits) \<Rightarrow>
        (pend \<noteq> [] \<longrightarrow>
           topR (targetRange s) \<le> targetRow s \<and> targetRow s < botR (targetRange s)
           \<and> height (targetRange s) \<le> 34
           \<and> 3 * (botR (leaveRange s) - botR (targetRange s)) \<le> height (targetRange s) + 1
           \<and> 3 * (topR (targetRange s) - topR (leaveRange s)) \<le> height (targetRange s) + 1)
        \<and> (covers (ranges s) (targetRange s) \<or> (pend \<noteq> [] \<and> last pend = targetRange s)))"

section \<open>Notions used to state the properties\<close>

text \<open>What \<^verbatim>\<open>cancelJobs(ownr)\<close> is said to do to one task.\<close>

definition cancelOwned :: "owner \<Rightarrow> Task \<Rightarrow> Task" where
  "cancelOwned ownr t =
     (if owner t = ownr \<and> state t = Pending
      then t\<lparr>state := Rejected, promise := RejectedWith TaskCancelledError\<rparr> else t)"

definition allTasks :: "Scheduler \<Rightarrow> Task list" where
  "allTasks s = readQueue s @ writeQueue s @ idleWriteQueue s"

text \<open>What the loop of \<^verbatim>\<open>executeTasks\<close> does to one task, and the tasks that a resumed
  caller schedules onto a phase.\<close>

definition fulfil :: "SchedulerEvent \<Rightarrow> Task \<Rightarrow> Task" where
  "fulfil evt t =
     (if state t = Pending then t\<lparr>state := Fulfilled, promise := ResolvedWith evt\<rparr> else t)"

fun scheduledOnto :: "phase \<Rightarrow> continuation \<Rightarrow> Task list" where
  "scheduledOnto p (Continuation cs) =
     map (\<lambda>(p', ownr, k). new_Task ownr k) (filter (\<lambda>(p', ownr, k). p' = p) cs)"

text \<open>The calls that hand an element back to the data source.\<close>

definition isSurrender :: "call \<Rightarrow> bool" where
  "isSurrender c = (case c of FreeDummyDom i e \<Rightarrow> True | FreeDom i e \<Rightarrow> True | _ \<Rightarrow> False)"

text \<open>What \<^verbatim>\<open>free\<close> is to hand back for the row \<open>i\<close> of the block \<open>b\<close>: the placeholder of the
  row, then its real element if the block is prepared.\<close>

definition rowSurrenders :: "Block \<Rightarrow> int \<Rightarrow> call list" where
  "rowSurrenders b i =
     FreeDummyDom i (elemAt (dummyDoms b) (nat (i - topR (rangeB b)))) #
     (case doms b of None \<Rightarrow> []
      | Some ds \<Rightarrow> [FreeDom i (elemAt ds (nat (i - topR (rangeB b))))])"

text \<open>A prepared block of the rows 3 and 4, and a scheduler in which that block, another block
  and the block set wait for the write phase.\<close>

definition twoRowBlock :: Block where
  "twoRowBlock = \<lparr>bid = 0, rangeB = \<lparr>topR = 3, botR = 5\<rparr>, dirty = False,
                  dummyDoms = [DummyElement 3, DummyElement 4],
                  doms = Some [RealElement 3, RealElement 4]\<rparr>"

definition busyScheduler :: Scheduler where
  "busyScheduler =
     \<lparr>readQueue = [new_Task (OwnerBlock 0) (Continuation [])],
      writeQueue = [new_Task (OwnerBlock 0) (Continuation []),
                    new_Task OwnerBlockSet
                      (Continuation [(WritePhase, OwnerBlock 1, Continuation [])]),
                    new_Task (OwnerBlock 1) (Continuation [])],
      idleWriteQueue = [new_Task (OwnerBlock 0)
                          (Continuation [(ReadPhase, OwnerBlock 0, Continuation [])])],
      jobs = []\<rparr>"

text \<open>A block set that holds one block, of rows 0 to 18 and not yet prepared, with the
  target row \<open>row\<close>.\<close>

definition oneBlockSet :: "int \<Rightarrow> BlockSet" where
  "oneBlockSet row =
     new_BlockSetImpl\<lparr>blocks := [\<lparr>bid = 0, rangeB = \<lparr>topR = 0, botR = 19\<rparr>, dirty = True,
                                   dummyDoms = map DummyElement [0..18], doms = None\<rparr>],
                      targetRow := row\<rparr>"

text \<open>A short scroll down a list of 1000 rows: three targets, one prepared block.\<close>

definition scrollDown :: "event list" where
  "scrollDown =
     [SetTarget \<lparr>topR = 100, botR = 130\<rparr> 115, WritesDrained,
      WorkDone \<lparr>lastFrameTime = 16, loadFactor = 0\<rparr> (1 / 2) 20,
      SetTarget \<lparr>topR = 120, botR = 150\<rparr> 135, SetTarget \<lparr>topR = 140, botR = 170\<rparr> 155,
      WritesDrained]"

text \<open>\<open>n\<close> calls of \<^verbatim>\<open>prepare\<close> in a row that each take \<open>time\<close> and are each made on a block of
  the size preferred at that moment, so that \<^verbatim>\<open>doPrepare\<close> records every one of them.\<close>

primrec feedPrepareTimes :: "real \<Rightarrow> nat \<Rightarrow> BlockSet \<Rightarrow> BlockSet" where
  "feedPrepareTimes time 0 s = s"
| "feedPrepareTimes time (Suc n) s = updateBlockTimes time (feedPrepareTimes time n s)"

section \<open>Properties of Range\<close>

lemma clampNum_inside_unless_bot:
  "topR r < botR r \<Longrightarrow> i \<noteq> botR r \<Longrightarrow> containsNum r (clampNum r i)"
  by (auto simp: clampNum_def containsNum_def)

lemma clampNum_as_clamp_unless_bot:
  "i \<noteq> botR r \<Longrightarrow>
     clampNum r i = (if i < topR r then topR r else if i > botR r - 1 then botR r - 1 else i)"
  by (simp add: clampNum_def)

lemma clampNum_fixes_bot: "topR r \<le> botR r \<Longrightarrow> clampNum r (botR r) = botR r"
  by (simp add: clampNum_def)

text \<open>C6. \<^verbatim>\<open>clampNum\<close> is meant to bring a number into \<open>[top, bot - 1]\<close>. Its second test is
  \<^verbatim>\<open>i > this.bot\<close>, so the number \<open>bot\<close> itself is returned as it is: on \<open>Range(0, 10)\<close> the
  number 10 comes back as 10, which the range does not contain, where 9 was due.\<close>

theorem clampNum_returns_bot:
  "clampNum \<lparr>topR = 0, botR = 10\<rparr> 10 = 10
     \<and> \<not> containsNum \<lparr>topR = 0, botR = 10\<rparr> (clampNum \<lparr>topR = 0, botR = 10\<rparr> 10)
     \<and> clampNum \<lparr>topR = 0, botR = 10\<rparr> 10 \<noteq> botR \<lparr>topR = 0, botR = 10\<rparr> - 1"
  by (simp add: clampNum_def containsNum_def)

section \<open>Properties of the frame timer\<close>

lemma addValue_length:
  "maxSamples a = 5 \<Longrightarrow> length (samples a) \<le> 4 \<Longrightarrow> length (samples (addValue v a)) \<le> 4"
  by (auto simp: addValue_def Let_def)

lemma addValue_keeps_four:
  "maxSamples a = 5 \<Longrightarrow> length (samples a) = 4 \<Longrightarrow>
     samples (addValue v a) = tl (samples a) @ [v]"
  by (cases "samples a") (auto simp: addValue_def Let_def)

lemma samples_never_five:
  "length (samples (foldl (\<lambda>a v. addValue v a) (new_AveragedValue 5) vs)) \<le> 4"
proof -
  have "\<And>a. maxSamples a = 5 \<Longrightarrow> length (samples a) \<le> 4 \<Longrightarrow>
          length (samples (foldl (\<lambda>a v. addValue v a) a vs)) \<le> 4"
  proof (induction vs)
    case Nil
    then show ?case by simp
  next
    case (Cons v vs)
    have "maxSamples (addValue v a) = 5" using Cons.prems(1) by (simp add: addValue_def Let_def)
    moreover have "length (samples (addValue v a)) \<le> 4"
      using Cons.prems by (auto simp: addValue_def Let_def)
    ultimately show ?case using Cons.IH by simp
  qed
  then show ?thesis by (simp add: new_AveragedValue_def)
qed

text \<open>C7. The timer is built to average the last 5 frames, but \<^verbatim>\<open>addValue\<close> drops the oldest
  sample as soon as 5 are held, so 4 are kept. After five ticks that took 10, 20, 30, 40 and
  50 ms the average is 35, the mean of the last four, and not 30, the mean of the five.\<close>

theorem averaged_frame_time_of_five_ticks:
  "getAveragedFrameTime
     (tick 150 (tick 100 (tick 60 (tick 30 (tick 10 (start 0 (new_AnimationFrameTimer 0)))))))
   = Inr ((20 + 30 + 40 + 50) / 4)
   \<and> getAveragedFrameTime
     (tick 150 (tick 100 (tick 60 (tick 30 (tick 10 (start 0 (new_AnimationFrameTimer 0)))))))
   \<noteq> Inr ((10 + 20 + 30 + 40 + 50) / 5)"
  by (simp add: getAveragedFrameTime_def tick_def start_def new_AnimationFrameTimer_def
        new_AveragedValue_def addValue_def get_avg_def Let_def)

section \<open>Properties of the velocity tracker\<close>

text \<open>C10. \<^verbatim>\<open>getVel\<close> changes the tracker in one case only: called 200 ms or more after the
  time of the last update it stores 0 as \<^verbatim>\<open>lastVel\<close>, so that the next \<^verbatim>\<open>onScroll\<close> blends the new
  velocity with 0; called earlier it leaves \<^verbatim>\<open>lastVel\<close>, \<^verbatim>\<open>lastPos\<close> and \<^verbatim>\<open>lastTime\<close> as they
  were.\<close>

theorem getVel_side_effect:
  "(decayTime \<le> now - lastTime v \<longrightarrow>
      snd (getVel now v) = v\<lparr>lastVel := 0\<rparr>
      \<and> (lastPos v \<noteq> -1 \<longrightarrow>
           lastVel (onScroll t pos (snd (getVel now v)))
             = 0 * 0.8 + (pos - lastPos v) / max 1 (t - lastTime v) * 0.2))
   \<and> (now - lastTime v < decayTime \<longrightarrow> snd (getVel now v) = v)"
  by (simp add: getVel_def onScroll_def decayTime_def decayStartTime_def Let_def)

theorem getVel_side_effect_witness:
  "snd (getVel 300 \<lparr>lastTime = 0, lastPos = 5, lastVel = 3\<rparr>)
     = \<lparr>lastTime = 0, lastPos = 5, lastVel = 3\<rparr>\<lparr>lastVel := 0\<rparr>
   \<and> lastVel (onScroll 310 25 (snd (getVel 300 \<lparr>lastTime = 0, lastPos = 5, lastVel = 3\<rparr>)))
     = 0 * 0.8 + (25 - lastPos \<lparr>lastTime = 0, lastPos = 5, lastVel = 3\<rparr>)
         / max 1 (310 - lastTime \<lparr>lastTime = 0, lastPos = 5, lastVel = 3\<rparr>) * 0.2
   \<and> snd (getVel 100 \<lparr>lastTime = 0, lastPos = 5, lastVel = 3\<rparr>)
     = \<lparr>lastTime = 0, lastPos = 5, lastVel = 3\<rparr>"
proof -
  let ?v = "\<lparr>lastTime = 0, lastPos = 5, lastVel = 3\<rparr>"
  have late: "decayTime \<le> 300 - lastTime ?v" by (simp add: decayTime_def)
  have early: "100 - lastTime ?v < decayTime" by (simp add: decayTime_def)
  have scrolled: "lastPos ?v \<noteq> -1" by simp
  from getVel_side_effect [of 300 ?v 310 25] late scrolled
  have A: "snd (getVel 300 ?v) = ?v\<lparr>lastVel := 0\<rparr>
      \<and> lastVel (onScroll 310 25 (snd (getVel 300 ?v)))
           = 0 * 0.8 + (25 - lastPos ?v) / max 1 (310 - lastTime ?v) * 0.2"
    by blast
  from getVel_side_effect [of 100 ?v] early
  have B: "snd (getVel 100 ?v) = ?v" by blast
  from A B show ?thesis by blast
qed

section \<open>Properties of the adaptive block size\<close>

lemma updateBlockTimes_stays_at_min:
  "preferredBlockSize s = 5 \<Longrightarrow> preferredBlockSize (updateBlockTimes time s) = 5"
  by (simp add: updateBlockTimes_def Let_def minBlockSize_def)

lemma feedPrepareTimes_add:
  "feedPrepareTimes time (m + n) s = feedPrepareTimes time n (feedPrepareTimes time m s)"
  by (induction n) simp_all

lemma feedPrepareTimes_stays_at_min:
  "preferredBlockSize s = 5 \<Longrightarrow> preferredBlockSize (feedPrepareTimes time n s) = 5"
  by (induction n) (simp_all add: updateBlockTimes_stays_at_min)

lemma feed_20_table:
  "map (\<lambda>n. preferredBlockSize (feedPrepareTimes 20 n new_BlockSetImpl)) [0..<26]
     = [19, 19, 19, 19, 19, 15, 15, 15, 15, 15, 12, 12, 12, 12, 12,
        9, 9, 9, 9, 9, 7, 7, 7, 7, 7, 5]"
  by code_simp

text \<open>C5, as stated: the third shrink would lead from 12 to 10. It leads to 9, since a fifth
  of 12, rounded up, is 3.\<close>

theorem shrink_from_12_is_not_10:
  "preferredBlockSize (feedPrepareTimes 20 15 new_BlockSetImpl) \<noteq> 10"
  by code_simp

text \<open>C5, amended. Starting from 19 and fed \<^verbatim>\<open>prepare\<close> times of 20 ms, the preferred block
  size drops at every fifth time: to 15, then 12, then 9, then 7, then 5, and it stays at 5
  however many more follow.\<close>

theorem shrink_sequence_from_19:
  "[preferredBlockSize (feedPrepareTimes 20 0 new_BlockSetImpl),
    preferredBlockSize (feedPrepareTimes 20 5 new_BlockSetImpl),
    preferredBlockSize (feedPrepareTimes 20 10 new_BlockSetImpl),
    preferredBlockSize (feedPrepareTimes 20 15 new_BlockSetImpl),
    preferredBlockSize (feedPrepareTimes 20 20 new_BlockSetImpl),
    preferredBlockSize (feedPrepareTimes 20 25 new_BlockSetImpl)]
     = [19, 15, 12, 9, 7, 5]
   \<and> map (\<lambda>n. preferredBlockSize (feedPrepareTimes 20 n new_BlockSetImpl)) [0..<26]
     = [19, 19, 19, 19, 19, 15, 15, 15, 15, 15, 12, 12, 12, 12, 12,
        9, 9, 9, 9, 9, 7, 7, 7, 7, 7, 5]
   \<and> (\<forall>n. preferredBlockSize (feedPrepareTimes 20 (25 + n) new_BlockSetImpl) = 5)"
proof -
  have at25: "preferredBlockSize (feedPrepareTimes 20 25 new_BlockSetImpl) = 5"
    by code_simp
  have tail: "\<forall>n. preferredBlockSize (feedPrepareTimes 20 (25 + n) new_BlockSetImpl) = 5"
    by (simp only: feedPrepareTimes_add feedPrepareTimes_stays_at_min [OF at25] simp_thms)
  have steps: "[preferredBlockSize (feedPrepareTimes 20 0 new_BlockSetImpl),
    preferredBlockSize (feedPrepareTimes 20 5 new_BlockSetImpl),
    preferredBlockSize (feedPrepareTimes 20 10 new_BlockSetImpl),
    preferredBlockSize (feedPrepareTimes 20 15 new_BlockSetImpl),
    preferredBlockSize (feedPrepareTimes 20 20 new_BlockSetImpl),
    preferredBlockSize (feedPrepareTimes 20 25 new_BlockSetImpl)]
     = [19, 15, 12, 9, 7, 5]"
    by code_simp
  show ?thesis by (rule conjI [OF steps conjI [OF feed_20_table tail]])
qed

section \<open>Properties of the scheduler\<close>

lemma clearLoop_map:
  "clearLoop ownr i q = Inr (take i q @ map (cancelOwned ownr) (drop i q))"
proof (induction ownr i q rule: clearLoop.induct)
  case (1 ownerObj i q)
  show ?case
  proof (cases "i < length q")
    case False
    then show ?thesis by (simp add: clearLoop.simps [of ownerObj i q])
  next
    case True
    note lt = True
    have dropi: "drop i q = q ! i # drop (Suc i) q"
      using lt by (simp add: Cons_nth_drop_Suc)
    show ?thesis
    proof (cases "owner (q ! i) = ownerObj \<and> state (q ! i) = Pending")
      case True
      let ?t' = "(q ! i)\<lparr>state := Rejected, promise := RejectedWith TaskCancelledError\<rparr>"
      have c: "cancel TaskCancelledError (q ! i) = Inr ?t'"
        using True by (simp add: cancel_def)
      have "clearLoop ownerObj i q = clearLoop ownerObj (i + 1) (q[i := ?t'])"
        using lt True c by (simp add: clearLoop.simps [of ownerObj i q] Let_def)
      also have "\<dots> = Inr (take (i + 1) (q[i := ?t']) @ map (cancelOwned ownerObj) (drop (i + 1) (q[i := ?t'])))"
        using "1.IH"(1) [OF lt refl True c] .
      also have "take (i + 1) (q[i := ?t']) = take i q @ [?t']"
        using lt by (simp add: take_Suc_conv_app_nth)
      also have "drop (i + 1) (q[i := ?t']) = drop (Suc i) q" by simp
      finally show ?thesis using True dropi by (simp add: cancelOwned_def)
    next
      case False
      have "clearLoop ownerObj i q = clearLoop ownerObj (i + 1) q"
        using lt False by (auto simp add: clearLoop.simps [of ownerObj i q] Let_def)
      also have "\<dots> = Inr (take (i + 1) q @ map (cancelOwned ownerObj) (drop (i + 1) q))"
        using "1.IH"(2) [OF lt refl False] .
      finally show ?thesis using False dropi lt
        by (auto simp add: cancelOwned_def take_Suc_conv_app_nth)
    qed
  qed
qed

lemma clearTasksBy_map:
  "clearTasksBy ownr p s = Inr (setQueue p (map (cancelOwned ownr) (queueOf p s)) s)"
  by (simp add: clearTasksBy_def clearLoop_map)

lemma cancelJobs_eq:
  "cancelJobs ownr s =
     Inr (s\<lparr>readQueue := map (cancelOwned ownr) (readQueue s),
            writeQueue := map (cancelOwned ownr) (writeQueue s),
            idleWriteQueue := map (cancelOwned ownr) (idleWriteQueue s)\<rparr>)"
  by (simp add: cancelJobs_def bindE_def clearTasksBy_map setQueue_def queueOf_def)

lemma no_pending_after_cancel:
  "filter (\<lambda>t. owner t = ownr \<and> state t = Pending) (map (cancelOwned ownr) q) = []"
  by (induction q) (auto simp: cancelOwned_def)

text \<open>C8. \<^verbatim>\<open>cancelJobs(ownr)\<close> never throws, and in each of the three queues it turns every
  task that is pending and owned by \<open>ownr\<close> into a rejected one whose promise is rejected with
  a \<^verbatim>\<open>TaskCancelledError\<close>, and leaves every other task, fulfilled, already rejected or owned
  by someone else, as it was.\<close>

theorem cancelJobs_cancels_pending_of_owner:
  "cancelJobs ownr s =
     Inr (s\<lparr>readQueue := map (\<lambda>t. if owner t = ownr \<and> state t = Pending
                                   then t\<lparr>state := Rejected, promise := RejectedWith TaskCancelledError\<rparr>
                                   else t) (readQueue s),
            writeQueue := map (\<lambda>t. if owner t = ownr \<and> state t = Pending
                                   then t\<lparr>state := Rejected, promise := RejectedWith TaskCancelledError\<rparr>
                                   else t) (writeQueue s),
            idleWriteQueue := map (\<lambda>t. if owner t = ownr \<and> state t = Pending
                                   then t\<lparr>state := Rejected, promise := RejectedWith TaskCancelledError\<rparr>
                                   else t) (idleWriteQueue s)\<rparr>)"
  by (simp add: cancelJobs_def bindE_def clearTasksBy_map setQueue_def queueOf_def cancelOwned_def [abs_def])

lemma executeLoop_fifo:
  "(\<And>j. i \<le> j \<Longrightarrow> j < length q \<Longrightarrow> state (q ! j) \<noteq> Fulfilled) \<Longrightarrow>
     executeLoop evt i q js
       = Inr (take i q @ map (fulfil evt) (drop i q),
              js @ map onResume (filter (\<lambda>t. state t = Pending) (drop i q)))"
proof (induction evt i q js rule: executeLoop.induct)
  case (1 evt i q js)
  show ?case
  proof (cases "i < length q")
    case False
    then show ?thesis by (subst executeLoop.simps) simp
  next
    case True
    note lt = True
    have dropi: "drop i q = q ! i # drop (Suc i) q"
      using lt by (simp add: Cons_nth_drop_Suc)
    have nf: "state (q ! i) \<noteq> Fulfilled" using "1.prems" [of i] lt by simp
    show ?thesis
    proof (cases "state (q ! i) = Rejected")
      case True
      have "executeLoop evt i q js = executeLoop evt (i + 1) q js"
        using lt True by (subst executeLoop.simps) (simp add: Let_def)
      also have "\<dots> = Inr (take (i + 1) q @ map (fulfil evt) (drop (i + 1) q),
              js @ map onResume (filter (\<lambda>t. state t = Pending) (drop (i + 1) q)))"
        using "1.IH"(1) [OF lt refl True] "1.prems" by simp
      finally show ?thesis using True dropi lt
        by (simp add: fulfil_def take_Suc_conv_app_nth)
    next
      case False
      with nf have pe: "state (q ! i) = Pending" by (cases "state (q ! i)") auto
      let ?t' = "(q ! i)\<lparr>state := Fulfilled, promise := ResolvedWith evt\<rparr>"
      have r: "run evt (q ! i) = Inr ?t'" using pe by (simp add: run_def)
      have later: "\<And>j. i + 1 \<le> j \<Longrightarrow> j < length (q[i := ?t']) \<Longrightarrow> state (q[i := ?t'] ! j) \<noteq> Fulfilled"
        using "1.prems" by simp
      have "executeLoop evt i q js = executeLoop evt (i + 1) (q[i := ?t']) (js @ [onResume (q ! i)])"
        using lt pe r by (subst executeLoop.simps) (simp add: Let_def)
      also have "\<dots> = Inr (take (i + 1) (q[i := ?t']) @ map (fulfil evt) (drop (i + 1) (q[i := ?t'])),
              (js @ [onResume (q ! i)])
                @ map onResume (filter (\<lambda>t. state t = Pending) (drop (i + 1) (q[i := ?t']))))"
        using "1.IH"(2) [OF lt refl False _ r later] nf by simp
      also have "take (i + 1) (q[i := ?t']) = take i q @ [?t']"
        using lt by (simp add: take_Suc_conv_app_nth)
      also have "drop (i + 1) (q[i := ?t']) = drop (Suc i) q" by simp
      finally show ?thesis using pe dropi by (simp add: fulfil_def)
    qed
  qed
qed

lemma executeTasks_fifo:
  assumes "list_all (\<lambda>t. state t \<noteq> Fulfilled) (queueOf p s)"
  shows "executeTasks evt p s
           = Inr ((setQueue p [] s)\<lparr>jobs := jobs s
                    @ map onResume (filter (\<lambda>t. state t = Pending) (queueOf p s))\<rparr>)"
proof -
  have "\<And>j. 0 \<le> j \<Longrightarrow> j < length (queueOf p s) \<Longrightarrow> state (queueOf p s ! j) \<noteq> Fulfilled"
    using assms by (simp add: list_all_length)
  from executeLoop_fifo [of 0 "queueOf p s" evt "jobs s", OF this] show ?thesis
    by (simp add: executeTasks_def)
qed

lemma queueOf_setQueue: "queueOf p (setQueue p' q s) = (if p = p' then q else queueOf p s)"
  by (cases p; cases p') (simp_all add: queueOf_def setQueue_def)

lemma makeTask_queue:
  "queueOf p (makeTaskForQueue ownr p' k s)
     = queueOf p s @ (if p' = p then [new_Task ownr k] else [])"
  by (auto simp: makeTaskForQueue_def queueOf_setQueue)

lemma foldl_makeTask_queue:
  "queueOf p (foldl (\<lambda>s' (p', ownr, k). makeTaskForQueue ownr p' k s') s cs)
     = queueOf p s @ map (\<lambda>(p', ownr, k). new_Task ownr k) (filter (\<lambda>(p', ownr, k). p' = p) cs)"
  by (induction cs arbitrary: s) (auto simp: makeTask_queue)

lemma resume_queue: "queueOf p (resume k s) = queueOf p s @ scheduledOnto p k"
  by (cases k) (simp add: foldl_makeTask_queue)

lemma foldl_resume_queue:
  "queueOf p (foldl (\<lambda>s' k. resume k s') s ks)
     = queueOf p s @ concat (map (scheduledOnto p) ks)"
  by (induction ks arbitrary: s) (simp_all add: resume_queue)

lemma runJobs_queue:
  "queueOf p (runJobs s) = queueOf p s @ concat (map (scheduledOnto p) (jobs s))"
proof -
  have "queueOf p (s\<lparr>jobs := []\<rparr>) = queueOf p s" by (cases p) (simp_all add: queueOf_def)
  then show ?thesis by (simp add: runJobs_def foldl_resume_queue)
qed

lemma scheduledOnto_pending: "list_all (\<lambda>t. state t = Pending) (scheduledOnto p k)"
  by (cases k) (auto simp: list_all_iff new_Task_def)

lemma same_phase_tasks_left_pending:
  assumes "list_all (\<lambda>t. state t \<noteq> Fulfilled) (queueOf p s)"
  shows "\<exists>s1. executeTasks evt p s = Inr s1
          \<and> queueOf p (runJobs s1)
              = concat (map (scheduledOnto p)
                  (jobs s @ map onResume (filter (\<lambda>t. state t = Pending) (queueOf p s))))
          \<and> list_all (\<lambda>t. state t = Pending) (queueOf p (runJobs s1))"
proof -
  let ?s1 = "(setQueue p [] s)\<lparr>jobs := jobs s
                    @ map onResume (filter (\<lambda>t. state t = Pending) (queueOf p s))\<rparr>"
  have e: "executeTasks evt p s = Inr ?s1" by (rule executeTasks_fifo [OF assms])
  have q: "queueOf p ?s1 = []" by (cases p) (simp_all add: queueOf_def setQueue_def)
  have r: "queueOf p (runJobs ?s1)
              = concat (map (scheduledOnto p)
                  (jobs s @ map onResume (filter (\<lambda>t. state t = Pending) (queueOf p s))))"
    using q by (simp add: runJobs_queue)
  have "list_all (\<lambda>t. state t = Pending) (queueOf p (runJobs ?s1))"
    unfolding r using scheduledOnto_pending by (auto simp: list_all_iff)
  with e r show ?thesis by simp
qed

text \<open>C3. A task that a continuation resumed in a phase schedules onto that same phase is
  meant to be run by the same drain. It is not: \<^verbatim>\<open>executeTasks\<close> fulfils the promises of its
  queue in one uninterrupted loop and empties the queue, and only then do the resumed callers
  run. With one write task whose continuation schedules a second write task, \<^verbatim>\<open>doBatched\<close>
  returns with the second task still pending in the write queue.\<close>

theorem same_phase_task_waits_for_next_drain:
  "doBatched (tick 16 (start 0 (new_AnimationFrameTimer 0)))
     (scheduleWrite (OwnerBlock 0) (Continuation [(WritePhase, OwnerBlock 0, Continuation [])])
        new_Scheduler)
   = Inr \<lparr>readQueue = [],
          writeQueue = [\<lparr>owner = OwnerBlock 0, state = Pending, promise = Unsettled,
                         onResume = Continuation []\<rparr>],
          idleWriteQueue = [], jobs = []\<rparr>"
  by code_simp

section \<open>Properties of Block.free\<close>

lemma takeWhile_pre: "list_all P xs \<Longrightarrow> \<not> P y \<Longrightarrow> takeWhile P (xs @ y # ys) = xs"
  by (induction xs) auto
lemma dropWhile_pre: "list_all P xs \<Longrightarrow> \<not> P y \<Longrightarrow> dropWhile P (xs @ y # ys) = y # ys"
  by (induction xs) auto

lemma free_rows:
  "free b = concat (map (rowSurrenders b) [topR (rangeB b)..botR (rangeB b) - 1])
            @ [CancelJobs (OwnerBlock (bid b)), DomDispose (bid b), ClearOuterHTMLIfAttached (bid b)]"
  by (simp add: free_def forEach_def rowSurrenders_def [abs_def] comp_def)

lemma rows_surrender: "list_all isSurrender (concat (map (rowSurrenders b) rows))"
  by (induction rows) (auto simp: rowSurrenders_def isSurrender_def split: option.splits)

lemma rows_not_cancel:
  "list_all (\<lambda>c. c \<noteq> CancelJobs ownr) (concat (map (rowSurrenders b) rows))"
  by (induction rows) (auto simp: rowSurrenders_def split: option.splits)

lemma cancelled_onResume:
  "map onResume (filter (\<lambda>t. state t = Pending) (map (cancelOwned ownr) q))
     = map onResume (filter (\<lambda>t. state t = Pending \<and> owner t \<noteq> ownr) q)"
  by (induction q) (auto simp: cancelOwned_def)

lemma cancelled_not_fulfilled:
  "list_all (\<lambda>t. state t \<noteq> Fulfilled) q
     \<Longrightarrow> list_all (\<lambda>t. state t \<noteq> Fulfilled) (map (cancelOwned ownr) q)"
  by (induction q) (auto simp: cancelOwned_def)

lemma cancelJobs_queue:
  "cancelJobs ownr s = Inr s' \<Longrightarrow> queueOf q s' = map (cancelOwned ownr) (queueOf q s)"
  by (cases q) (auto simp: cancelJobs_eq queueOf_def)

text \<open>\<^verbatim>\<open>cancelJobs\<close> walks the three queues and nothing else: a reaction that the drain in
  progress has queued already, for a task it has fulfilled, stays queued through \<^verbatim>\<open>free\<close>.\<close>

lemma freeIn_keeps_jobs: "freeIn b s = Inr (cs, s') \<Longrightarrow> jobs s' = jobs s"
  by (auto simp: freeIn_def bindE_def cancelJobs_eq)

text \<open>C4, as stated: \<^verbatim>\<open>cancelJobs\<close> would come before any element is handed back. For a block
  of one row, the calls \<^verbatim>\<open>free\<close> makes before \<^verbatim>\<open>cancelJobs\<close> include \<^verbatim>\<open>freeDummyDom\<close>.\<close>

theorem free_surrenders_first_example:
  "\<not> list_all (\<lambda>c. \<not> isSurrender c)
       (takeWhile (\<lambda>c. c \<noteq> CancelJobs (OwnerBlock 0))
          (free \<lparr>bid = 0, rangeB = \<lparr>topR = 0, botR = 1\<rparr>, dirty = True,
                 dummyDoms = [DummyElement 0], doms = None\<rparr>))"
  by code_simp

text \<open>C4, amended: \<^verbatim>\<open>cancelJobs\<close> comes after the elements are handed back, not before. The
  calls that \<^verbatim>\<open>free\<close> makes before \<^verbatim>\<open>cancelJobs(this)\<close> are, row by row in ascending order, the
  hand-back of the row's placeholder and, if the block is prepared, of its real element, and
  nothing else; \<^verbatim>\<open>cancelJobs(this)\<close> follows, then the disposal of the block's own element.
  \<^verbatim>\<open>free\<close> never throws, and it leaves every task of the block that was pending in a queue
  rejected with a \<^verbatim>\<open>TaskCancelledError\<close>, so that no task of the block is pending any more.
  When the queue of a phase is drained next, the reactions it queues are those of the pending
  tasks of the other owners, in the order of the queue: the continuation of a task of the block
  that was pending when \<^verbatim>\<open>free\<close> was called is not resumed, and the task is gone from the
  queue. (A drain throws when it meets a fulfilled task, hence the assumption.)\<close>

theorem free_cancels_after_surrender:
  assumes "list_all (\<lambda>t. state t \<noteq> Fulfilled) (queueOf p s)"
  shows "takeWhile (\<lambda>c. c \<noteq> CancelJobs (OwnerBlock (bid b))) (free b)
           = concat (map (rowSurrenders b) [topR (rangeB b)..botR (rangeB b) - 1])
   \<and> list_all isSurrender (takeWhile (\<lambda>c. c \<noteq> CancelJobs (OwnerBlock (bid b))) (free b))
   \<and> dropWhile (\<lambda>c. c \<noteq> CancelJobs (OwnerBlock (bid b))) (free b)
       = [CancelJobs (OwnerBlock (bid b)), DomDispose (bid b), ClearOuterHTMLIfAttached (bid b)]
   \<and> (\<exists>s'. freeIn b s = Inr (free b, s')
         \<and> (\<forall>q. queueOf q s' = map (cancelOwned (OwnerBlock (bid b))) (queueOf q s))
         \<and> filter (\<lambda>t. owner t = OwnerBlock (bid b) \<and> state t = Pending) (allTasks s') = []
         \<and> (\<exists>s''. executeTasks evt p s' = Inr s'' \<and> queueOf p s'' = []
               \<and> jobs s'' = jobs s' @ map onResume
                    (filter (\<lambda>t. state t = Pending \<and> owner t \<noteq> OwnerBlock (bid b))
                       (queueOf p s))))"
proof -
  let ?o = "OwnerBlock (bid b)"
  let ?pre = "concat (map (rowSurrenders b) [topR (rangeB b)..botR (rangeB b) - 1])"
  let ?c = "CancelJobs ?o"
  have fr: "free b = ?pre @ ?c # [DomDispose (bid b), ClearOuterHTMLIfAttached (bid b)]"
    by (simp add: free_rows)
  have ne: "list_all (\<lambda>c. c \<noteq> ?c) ?pre" by (rule rows_not_cancel)
  have tw: "takeWhile (\<lambda>c. c \<noteq> ?c) (free b) = ?pre"
    unfolding fr by (rule takeWhile_pre [OF ne]) simp
  have su: "list_all isSurrender (takeWhile (\<lambda>c. c \<noteq> ?c) (free b))"
    unfolding tw by (rule rows_surrender)
  have dw: "dropWhile (\<lambda>c. c \<noteq> ?c) (free b)
              = [?c, DomDispose (bid b), ClearOuterHTMLIfAttached (bid b)]"
    unfolding fr by (rule dropWhile_pre [OF ne]) simp
  obtain s' where c: "cancelJobs ?o s = Inr s'" by (simp add: cancelJobs_eq)
  have f: "freeIn b s = Inr (free b, s')" using c by (simp add: freeIn_def bindE_def)
  have q: "\<forall>q. queueOf q s' = map (cancelOwned ?o) (queueOf q s)"
    using cancelJobs_queue [OF c] by simp
  have np: "filter (\<lambda>t. owner t = ?o \<and> state t = Pending) (allTasks s') = []"
    using c by (auto simp: cancelJobs_eq allTasks_def no_pending_after_cancel)
  have nf: "list_all (\<lambda>t. state t \<noteq> Fulfilled) (queueOf p s')"
    using q cancelled_not_fulfilled [OF assms] by simp
  let ?s2 = "(setQueue p [] s')\<lparr>jobs := jobs s'
                    @ map onResume (filter (\<lambda>t. state t = Pending) (queueOf p s'))\<rparr>"
  have e: "executeTasks evt p s' = Inr ?s2" by (rule executeTasks_fifo [OF nf])
  have q2: "queueOf p ?s2 = []" by (cases p) (simp_all add: queueOf_def setQueue_def)
  have j2: "jobs ?s2 = jobs s' @ map onResume
                    (filter (\<lambda>t. state t = Pending \<and> owner t \<noteq> ?o) (queueOf p s))"
    using q by (simp add: cancelled_onResume)
  from tw su dw f q np e q2 j2 show ?thesis by blast
qed

theorem free_cancels_after_surrender_witness:
  "takeWhile (\<lambda>c. c \<noteq> CancelJobs (OwnerBlock 0)) (free twoRowBlock)
      = [FreeDummyDom 3 (Some (DummyElement 3)), FreeDom 3 (Some (RealElement 3)),
         FreeDummyDom 4 (Some (DummyElement 4)), FreeDom 4 (Some (RealElement 4))]
   \<and> (\<exists>s'. freeIn twoRowBlock busyScheduler = Inr (free twoRowBlock, s')
         \<and> map state (writeQueue s') = [Rejected, Pending, Pending]
         \<and> (\<exists>s''. executeTasks \<lparr>lastFrameTime = 16, loadFactor = 0\<rparr> WritePhase s' = Inr s''
               \<and> writeQueue s'' = []
               \<and> jobs s'' = [Continuation [(WritePhase, OwnerBlock 1, Continuation [])],
                              Continuation []]))"
proof -
  have h: "list_all (\<lambda>t. state t \<noteq> Fulfilled) (queueOf WritePhase busyScheduler)"
    by code_simp
  have rows: "concat (map (rowSurrenders twoRowBlock)
                 [topR (rangeB twoRowBlock)..botR (rangeB twoRowBlock) - 1])
      = [FreeDummyDom 3 (Some (DummyElement 3)), FreeDom 3 (Some (RealElement 3)),
         FreeDummyDom 4 (Some (DummyElement 4)), FreeDom 4 (Some (RealElement 4))]"
    by code_simp
  have b0: "bid twoRowBlock = 0" by (simp add: twoRowBlock_def)
  have st: "map state (map (cancelOwned (OwnerBlock 0)) (queueOf WritePhase busyScheduler))
              = [Rejected, Pending, Pending]"
    by code_simp
  have js: "map onResume (filter (\<lambda>t. state t = Pending \<and> owner t \<noteq> OwnerBlock 0)
               (queueOf WritePhase busyScheduler))
            = [Continuation [(WritePhase, OwnerBlock 1, Continuation [])], Continuation []]"
    by code_simp
  have jb: "jobs busyScheduler = []" by (simp add: busyScheduler_def)
  from free_cancels_after_surrender [OF h, of twoRowBlock "\<lparr>lastFrameTime = 16, loadFactor = 0\<rparr>"]
  obtain s' s'' where r:
    "takeWhile (\<lambda>c. c \<noteq> CancelJobs (OwnerBlock (bid twoRowBlock))) (free twoRowBlock)
           = concat (map (rowSurrenders twoRowBlock)
               [topR (rangeB twoRowBlock)..botR (rangeB twoRowBlock) - 1])"
    "freeIn twoRowBlock busyScheduler = Inr (free twoRowBlock, s')"
    "\<forall>q. queueOf q s' = map (cancelOwned (OwnerBlock (bid twoRowBlock))) (queueOf q busyScheduler)"
    "executeTasks \<lparr>lastFrameTime = 16, loadFactor = 0\<rparr> WritePhase s' = Inr s''"
    "queueOf WritePhase s'' = []"
    "jobs s'' = jobs s' @ map onResume
                    (filter (\<lambda>t. state t = Pending \<and> owner t \<noteq> OwnerBlock (bid twoRowBlock))
                       (queueOf WritePhase busyScheduler))"
    by blast
  have js': "jobs s' = []" using freeIn_keeps_jobs [OF r(2)] jb by simp
  have w1: "map state (writeQueue s') = [Rejected, Pending, Pending]"
    using r(3) [rule_format, of WritePhase] st b0 by (simp add: queueOf_def)
  have w2: "writeQueue s'' = []" using r(5) by (simp add: queueOf_def)
  have w3: "jobs s'' = [Continuation [(WritePhase, OwnerBlock 1, Continuation [])], Continuation []]"
    using r(6) js js' b0 by simp
  from r(1) rows b0
  have w0: "takeWhile (\<lambda>c. c \<noteq> CancelJobs (OwnerBlock 0)) (free twoRowBlock)
      = [FreeDummyDom 3 (Some (DummyElement 3)), FreeDom 3 (Some (RealElement 3)),
         FreeDummyDom 4 (Some (DummyElement 4)), FreeDom 4 (Some (RealElement 4))]" by simp
  have A: "\<exists>s''. executeTasks \<lparr>lastFrameTime = 16, loadFactor = 0\<rparr> WritePhase s' = Inr s''
               \<and> writeQueue s'' = []
               \<and> jobs s'' = [Continuation [(WritePhase, OwnerBlock 1, Continuation [])],
                              Continuation []]"
    by (rule exI [of _ s'']) (simp only: r(4) w2 w3 simp_thms)
  have B: "\<exists>s'. freeIn twoRowBlock busyScheduler = Inr (free twoRowBlock, s')
         \<and> map state (writeQueue s') = [Rejected, Pending, Pending]
         \<and> (\<exists>s''. executeTasks \<lparr>lastFrameTime = 16, loadFactor = 0\<rparr> WritePhase s' = Inr s''
               \<and> writeQueue s'' = []
               \<and> jobs s'' = [Continuation [(WritePhase, OwnerBlock 1, Continuation [])],
                              Continuation []])"
    by (rule exI [of _ s']) (simp only: r(2) w1 A simp_thms)
  from w0 B show ?thesis by (rule conjI)
qed

section \<open>Properties of doWork\<close>

text \<open>The property \<^verbatim>\<open>DEBUG\<close> that \<^verbatim>\<open>doWork\<close> reads off the coordinator is declared nowhere and
  assigned nowhere, so it is \<^verbatim>\<open>undefined\<close>: the properties are stated for \<open>DEBUG = False\<close>.\<close>

lemma findCenter_spec:
  "(findCenter bs row i = -1 \<and> (\<forall>j. i \<le> j \<and> j < length bs \<longrightarrow> \<not> containsNum (getRange (bs ! j)) row))
   \<or> (\<exists>c. findCenter bs row i = int c \<and> i \<le> c \<and> c < length bs
          \<and> containsNum (getRange (bs ! c)) row)"
proof (induction bs row i rule: findCenter.induct)
  case (1 bs row i)
  show ?case
  proof (cases "i < length bs")
    case False
    then show ?thesis by (auto simp add: findCenter.simps [of bs row i])
  next
    case True
    note lt = True
    show ?thesis
    proof (cases "containsNum (getRange (bs ! i)) row")
      case True
      with lt show ?thesis by (auto simp: findCenter.simps [of bs row i])
    next
      case False
      have eq: "findCenter bs row i = findCenter bs row (i + 1)"
        using lt False by (simp add: findCenter.simps [of bs row i])
      from "1.IH" [OF lt False] show ?thesis
      proof
        assume a: "findCenter bs row (i + 1) = - 1 \<and>
          (\<forall>j. i + 1 \<le> j \<and> j < length bs \<longrightarrow> \<not> containsNum (getRange (bs ! j)) row)"
        have "\<forall>j. i \<le> j \<and> j < length bs \<longrightarrow> \<not> containsNum (getRange (bs ! j)) row"
        proof (intro allI impI)
          fix j assume "i \<le> j \<and> j < length bs"
          then show "\<not> containsNum (getRange (bs ! j)) row"
            using a False by (cases "j = i") auto
        qed
        with a eq show ?thesis by simp
      next
        assume "\<exists>c. findCenter bs row (i + 1) = int c \<and> i + 1 \<le> c \<and> c < length bs \<and>
          containsNum (getRange (bs ! c)) row"
        then obtain c where "findCenter bs row (i + 1) = int c" "i + 1 \<le> c" "c < length bs"
          "containsNum (getRange (bs ! c)) row" by blast
        with eq show ?thesis by auto
      qed
    qed
  qed
qed

lemma walkOutward_some:
  "bk < int (length bs) \<Longrightarrow> walkOutward bs bk fw = Some k \<Longrightarrow>
     k < length bs \<and> \<not> isPrepared (bs ! k)"
proof (induction bs bk fw rule: walkOutward.induct)
  case (1 bs bk fw)
  show ?case
  proof (cases "bk \<ge> 0 \<or> fw < length bs")
    case False
    with "1.prems" show ?thesis by (simp add: walkOutward.simps [of bs bk fw])
  next
    case True
    note go = True
    show ?thesis
    proof (cases "bk \<ge> 0 \<and> \<not> isPrepared (bs ! nat bk)")
      case True
      with go "1.prems" show ?thesis
        by (auto simp: walkOutward.simps [of bs bk fw])
    next
      case False
      note nb = False
      show ?thesis
      proof (cases "fw < length bs \<and> \<not> isPrepared (bs ! fw)")
        case True
        with go nb "1.prems" show ?thesis
          by (auto simp: walkOutward.simps [of bs bk fw])
      next
        case False
        have "walkOutward bs bk fw = walkOutward bs (bk - 1) (fw + 1)"
          using go nb False by (auto simp: walkOutward.simps [of bs bk fw])
        with "1.IH" [OF go nb False] "1.prems" show ?thesis by simp
      qed
    qed
  qed
qed

lemma walkOutward_none:
  "walkOutward bs bk fw = None \<Longrightarrow> j < length bs \<Longrightarrow> int j \<le> bk \<or> fw \<le> j \<Longrightarrow>
     isPrepared (bs ! j)"
proof (induction bs bk fw rule: walkOutward.induct)
  case (1 bs bk fw)
  have go: "bk \<ge> 0 \<or> fw < length bs" using "1.prems" by auto
  have nb: "\<not> (bk \<ge> 0 \<and> \<not> isPrepared (bs ! nat bk))"
    using "1.prems"(1) go by (auto simp: walkOutward.simps [of bs bk fw] split: if_splits)
  have nf: "\<not> (fw < length bs \<and> \<not> isPrepared (bs ! fw))"
    using "1.prems"(1) go nb by (auto simp: walkOutward.simps [of bs bk fw] split: if_splits)
  have eq: "walkOutward bs (bk - 1) (fw + 1) = None"
    using "1.prems"(1) go nb nf by (auto simp: walkOutward.simps [of bs bk fw] split: if_splits)
  show ?case
  proof (cases "int j = bk \<or> j = fw")
    case True
    then show ?thesis using nb nf "1.prems" by auto
  next
    case False
    then have "int j \<le> bk - 1 \<or> fw + 1 \<le> j" using "1.prems"(3) by auto
    from "1.IH" [OF go nb nf eq "1.prems"(2) this] show ?thesis .
  qed
qed


lemma getNext_no_center:
  assumes "0 \<le> N"
    and "\<not> list_ex (\<lambda>b. containsNum (getRange b) (clampNum \<lparr>topR = 0, botR = N\<rparr> (targetRow s))) (blocks s)"
  shows "getNextUnpreparedBlock N s = Inr None"
proof -
  let ?row = "clampNum \<lparr>topR = 0, botR = N\<rparr> (targetRow s)"
  have "\<And>c. c < length (blocks s) \<Longrightarrow> \<not> containsNum (getRange (blocks s ! c)) ?row"
    using assms(2) by (auto simp: list_ex_iff)
  then have "findCenter (blocks s) ?row 0 = -1"
    using findCenter_spec [of "blocks s" ?row 0] by blast
  then show ?thesis using assms(1)
    by (simp add: getNextUnpreparedBlock_def new_Range_def bindE_def Let_def)
qed

lemma getNext_center:
  assumes "0 \<le> N"
    and "list_ex (\<lambda>b. containsNum (getRange b) (clampNum \<lparr>topR = 0, botR = N\<rparr> (targetRow s))) (blocks s)"
    and "list_ex (\<lambda>b. \<not> isPrepared b) (blocks s)"
  shows "\<exists>k<length (blocks s). \<not> isPrepared (blocks s ! k) \<and> getNextUnpreparedBlock N s = Inr (Some k)"
proof -
  let ?row = "clampNum \<lparr>topR = 0, botR = N\<rparr> (targetRow s)"
  obtain c where c: "findCenter (blocks s) ?row 0 = int c" "c < length (blocks s)"
    using findCenter_spec [of "blocks s" ?row 0] assms(2)
    by (auto simp: list_ex_iff in_set_conv_nth)
  have g: "getNextUnpreparedBlock N s = Inr (walkOutward (blocks s) (int c) (c + 1))"
    using assms(1) c
    by (simp add: getNextUnpreparedBlock_def new_Range_def bindE_def Let_def nat_add_distrib)
  obtain j where j: "j < length (blocks s)" "\<not> isPrepared (blocks s ! j)"
    using assms(3) by (auto simp: list_ex_iff in_set_conv_nth)
  have "walkOutward (blocks s) (int c) (c + 1) \<noteq> None"
  proof
    assume "walkOutward (blocks s) (int c) (c + 1) = None"
    moreover have "int j \<le> int c \<or> c + 1 \<le> j" by linarith
    ultimately have "isPrepared (blocks s ! j)" using j(1) by (metis walkOutward_none)
    with j(2) show False by simp
  qed
  then obtain k where k: "walkOutward (blocks s) (int c) (c + 1) = Some k" by auto
  from walkOutward_some [OF _ k] c(2)
  have "k < length (blocks s) \<and> \<not> isPrepared (blocks s ! k)" by simp
  with g k show ?thesis by auto
qed

lemma updateBlockTimes_calls: "calls (updateBlockTimes t s) = calls s"
  by (simp add: updateBlockTimes_def Let_def)

lemma updateBlockTimes_blocks: "blocks (updateBlockTimes t s) = blocks s"
  by (simp add: updateBlockTimes_def Let_def)

lemma doPrepare_calls: "length (calls (doPrepare k t s)) > length (calls s)"
  by (simp add: doPrepare_def Let_def prepare_def updateBlockTimes_calls)

lemma doPrepare_changes: "doPrepare k t s \<noteq> s"
  using doPrepare_calls [of s k t] by auto

lemma doPrepare_blocks:
  "blocks (doPrepare k t s) = (blocks s)[k := fst (prepare (blocks s ! k))]"
  by (simp add: doPrepare_def Let_def prepare_def updateBlockTimes_blocks)

lemma doPrepare_prepared:
  "k < length (blocks s) \<Longrightarrow> isPrepared (blocks (doPrepare k t s) ! k)"
  by (simp add: doPrepare_blocks prepare_def isPrepared_def)

text \<open>What \<^verbatim>\<open>doWork\<close> does, for every state, event and draw. It changes nothing when no live
  block holds the clamped target row. When one does and some live block is not prepared,
  \<^verbatim>\<open>doWork\<close> prepares a block, one that was not prepared, exactly when the draw \<open>u\<close> is above
  the load factor, and changes nothing otherwise; at load factor 0 the draw 0 is the one draw
  for which it changes nothing.\<close>

theorem doWork_prepares_iff_draw_above_load:
  assumes "0 \<le> N"
  shows
    "(\<not> list_ex (\<lambda>b. containsNum (getRange b) (clampNum \<lparr>topR = 0, botR = N\<rparr> (targetRow s)))
          (blocks s)
       \<longrightarrow> doWork False N evt u deltaT s = Inr s)
   \<and> (list_ex (\<lambda>b. containsNum (getRange b) (clampNum \<lparr>topR = 0, botR = N\<rparr> (targetRow s)))
          (blocks s)
       \<and> list_ex (\<lambda>b. \<not> isPrepared b) (blocks s)
       \<longrightarrow> ((\<exists>k<length (blocks s). \<not> isPrepared (blocks s ! k)
                \<and> isPrepared (blocks (doPrepare k deltaT s) ! k)
                \<and> doWork False N evt u deltaT s = Inr (doPrepare k deltaT s))
              = (u > loadFactor evt))
           \<and> ((doWork False N evt u deltaT s = Inr s) = (\<not> u > loadFactor evt))
           \<and> (loadFactor evt = 0 \<and> 0 \<le> u
                \<longrightarrow> (doWork False N evt u deltaT s = Inr s) = (u = 0)))"
proof (intro conjI impI)
  assume "\<not> list_ex (\<lambda>b. containsNum (getRange b) (clampNum \<lparr>topR = 0, botR = N\<rparr> (targetRow s))) (blocks s)"
  from getNext_no_center [OF assms this]
  show "doWork False N evt u deltaT s = Inr s"
    by (simp add: doWork_def bindE_def)
next
  assume a: "list_ex (\<lambda>b. containsNum (getRange b) (clampNum \<lparr>topR = 0, botR = N\<rparr> (targetRow s))) (blocks s)
       \<and> list_ex (\<lambda>b. \<not> isPrepared b) (blocks s)"
  then obtain k where k: "k < length (blocks s)" "\<not> isPrepared (blocks s ! k)"
      "getNextUnpreparedBlock N s = Inr (Some k)"
    using getNext_center [OF assms] by blast
  have w: "doWork False N evt u deltaT s
             = (if u > loadFactor evt then Inr (doPrepare k deltaT s) else Inr s)"
    using k(3) by (simp add: doWork_def bindE_def Let_def)
  show "(\<exists>k<length (blocks s). \<not> isPrepared (blocks s ! k)
                \<and> isPrepared (blocks (doPrepare k deltaT s) ! k)
                \<and> doWork False N evt u deltaT s = Inr (doPrepare k deltaT s))
              = (u > loadFactor evt)"
    using w k doPrepare_prepared [OF k(1)] doPrepare_changes by auto
next
  assume a: "list_ex (\<lambda>b. containsNum (getRange b) (clampNum \<lparr>topR = 0, botR = N\<rparr> (targetRow s))) (blocks s)
       \<and> list_ex (\<lambda>b. \<not> isPrepared b) (blocks s)"
  then obtain k where k: "k < length (blocks s)" "\<not> isPrepared (blocks s ! k)"
      "getNextUnpreparedBlock N s = Inr (Some k)"
    using getNext_center [OF assms] by blast
  have w: "doWork False N evt u deltaT s
             = (if u > loadFactor evt then Inr (doPrepare k deltaT s) else Inr s)"
    using k(3) by (simp add: doWork_def bindE_def Let_def)
  show "(doWork False N evt u deltaT s = Inr s) = (\<not> u > loadFactor evt)"
    using w doPrepare_changes by auto
next
  assume a: "list_ex (\<lambda>b. containsNum (getRange b) (clampNum \<lparr>topR = 0, botR = N\<rparr> (targetRow s))) (blocks s)
       \<and> list_ex (\<lambda>b. \<not> isPrepared b) (blocks s)"
    and z: "loadFactor evt = 0 \<and> 0 \<le> u"
  then obtain k where k: "k < length (blocks s)" "\<not> isPrepared (blocks s ! k)"
      "getNextUnpreparedBlock N s = Inr (Some k)"
    using getNext_center [OF assms] by blast
  have w: "doWork False N evt u deltaT s
             = (if u > loadFactor evt then Inr (doPrepare k deltaT s) else Inr s)"
    using k(3) by (simp add: doWork_def bindE_def Let_def)
  show "(doWork False N evt u deltaT s = Inr s) = (u = 0)"
    using w z doPrepare_changes by auto
qed


theorem doWork_prepares_iff_draw_above_load_witness:
  "doWork False 100 \<lparr>lastFrameTime = 16, loadFactor = 0\<rparr> (1 / 2) 3 (oneBlockSet 50) = Inr (oneBlockSet 50)
   \<and> (\<exists>k<length (blocks (oneBlockSet 5)). \<not> isPrepared (blocks (oneBlockSet 5) ! k)
         \<and> isPrepared (blocks (doPrepare k 3 (oneBlockSet 5)) ! k)
         \<and> doWork False 100 \<lparr>lastFrameTime = 16, loadFactor = 0\<rparr> (1 / 2) 3 (oneBlockSet 5)
             = Inr (doPrepare k 3 (oneBlockSet 5)))
   \<and> doWork False 100 \<lparr>lastFrameTime = 16, loadFactor = 0.95\<rparr> (1 / 2) 3 (oneBlockSet 5)
        = Inr (oneBlockSet 5)
   \<and> doWork False 100 \<lparr>lastFrameTime = 16, loadFactor = 0\<rparr> 0 3 (oneBlockSet 5)
        = Inr (oneBlockSet 5)"
proof -
  let ?e0 = "\<lparr>lastFrameTime = 16, loadFactor = 0\<rparr>"
  let ?e95 = "\<lparr>lastFrameTime = 16, loadFactor = 0.95\<rparr>"
  have N: "(0::int) \<le> 100" by simp
  have away: "\<not> list_ex (\<lambda>b. containsNum (getRange b)
                 (clampNum \<lparr>topR = 0, botR = 100\<rparr> (targetRow (oneBlockSet 50)))) (blocks (oneBlockSet 50))"
    by code_simp
  have here: "list_ex (\<lambda>b. containsNum (getRange b)
                 (clampNum \<lparr>topR = 0, botR = 100\<rparr> (targetRow (oneBlockSet 5)))) (blocks (oneBlockSet 5))
              \<and> list_ex (\<lambda>b. \<not> isPrepared b) (blocks (oneBlockSet 5))"
    by code_simp
  have above: "(1 / 2 :: real) > loadFactor ?e0" by simp
  have below: "\<not> (1 / 2 :: real) > loadFactor ?e95" by simp
  have zero: "loadFactor ?e0 = 0 \<and> (0::real) \<le> 0" by simp
  from doWork_prepares_iff_draw_above_load [OF N, of "oneBlockSet 50" ?e0 "1 / 2" 3] away
  have A: "doWork False 100 ?e0 (1 / 2) 3 (oneBlockSet 50) = Inr (oneBlockSet 50)" by blast
  from doWork_prepares_iff_draw_above_load [OF N, of "oneBlockSet 5" ?e0 "1 / 2" 3] here above
  have B: "\<exists>k<length (blocks (oneBlockSet 5)). \<not> isPrepared (blocks (oneBlockSet 5) ! k)
         \<and> isPrepared (blocks (doPrepare k 3 (oneBlockSet 5)) ! k)
         \<and> doWork False 100 ?e0 (1 / 2) 3 (oneBlockSet 5) = Inr (doPrepare k 3 (oneBlockSet 5))"
    by blast
  from doWork_prepares_iff_draw_above_load [OF N, of "oneBlockSet 5" ?e95 "1 / 2" 3] here below
  have C: "doWork False 100 ?e95 (1 / 2) 3 (oneBlockSet 5) = Inr (oneBlockSet 5)" by blast
  from doWork_prepares_iff_draw_above_load [OF N, of "oneBlockSet 5" ?e0 0 3] here zero
  have D: "doWork False 100 ?e0 0 3 (oneBlockSet 5) = Inr (oneBlockSet 5)" by blast
  from A B C D show ?thesis by blast
qed

text \<open>C9. At load factor 0 the backoff is meant never to skip a preparation: the comment
  above the test reads \<^verbatim>\<open>if we're at 0, we want it to run always\<close>. The test is
  \<^verbatim>\<open>Math.random() > evt.loadFactor\<close>, and \<^verbatim>\<open>Math.random()\<close> can return 0. With 100 rows, one
  live block of the rows 0 to 18 that is not prepared and holds the target row 5, the load
  factor 0 and the draw 0, \<^verbatim>\<open>doWork\<close> returns without preparing the block.\<close>

theorem doWork_skips_at_load_zero:
  "doWork False 100 \<lparr>lastFrameTime = 16, loadFactor = 0\<rparr> 0 3 (oneBlockSet 5) = Inr (oneBlockSet 5)
   \<and> list_ex (\<lambda>b. containsNum (getRange b) (clampNum \<lparr>topR = 0, botR = 100\<rparr> (targetRow (oneBlockSet 5))))
        (blocks (oneBlockSet 5))
   \<and> list_ex (\<lambda>b. \<not> isPrepared b) (blocks (oneBlockSet 5))"
  by code_simp

section \<open>Properties of the block set\<close>

lemma clampTo_rows:
  "0 \<le> N \<Longrightarrow> topR r < botR r \<Longrightarrow> topR r < N \<Longrightarrow> 0 < botR r \<Longrightarrow>
     clampTo r \<lparr>topR = 0, botR = N\<rparr> = \<lparr>topR = max 0 (topR r), botR = min N (botR r)\<rparr>"
  by (auto simp: clampTo_def Let_def max_def min_def)

lemma prepareDummyDoms_ok:
  "0 \<le> topR r \<Longrightarrow> botR r \<le> N \<Longrightarrow> \<exists>ds cs. prepareDummyDoms N r = Inr (ds, cs)"
  by (auto simp: prepareDummyDoms_def forEach_def list_ex_iff)

lemma createBlockClamped_ok:
  assumes "0 \<le> N" "topR r < botR r" "topR r < N" "0 < botR r"
  shows "\<exists>b cs. createBlockClamped N r s
                  = Inr (b, s\<lparr>nextId := nextId s + 1, calls := calls s @ cs\<rparr>)
               \<and> getRange b = \<lparr>topR = max 0 (topR r), botR = min N (botR r)\<rparr>"
proof -
  let ?c = "\<lparr>topR = max 0 (topR r), botR = min N (botR r)\<rparr>"
  have "0 \<le> topR ?c" "botR ?c \<le> N" by simp_all
  from prepareDummyDoms_ok [OF this] obtain ds cs where p: "prepareDummyDoms N ?c = Inr (ds, cs)"
    by blast
  show ?thesis
    using assms(1) p clampTo_rows [OF assms]
    by (simp add: createBlockClamped_def new_Range_def bindE_def new_BlockImpl_def getRange_def)
       (rule exI, rule refl)
qed

lemma liveOK_Nil: "liveOK N []"
  by (simp add: liveOK_def contiguous_def)

lemma liveOK_Cons:
  "liveOK N (r # rs) \<longleftrightarrow>
     0 \<le> topR r \<and> topR r < botR r \<and> botR r \<le> N \<and> (rs = [] \<or> botR r = topR (hd rs)) \<and> liveOK N rs"
  by (auto simp: liveOK_def contiguous_def successively_Cons)

lemma liveOK_snoc:
  "liveOK N (rs @ [r]) \<longleftrightarrow>
     0 \<le> topR r \<and> topR r < botR r \<and> botR r \<le> N \<and> (rs = [] \<or> botR (last rs) = topR r) \<and> liveOK N rs"
  by (auto simp: liveOK_def contiguous_def successively_append_iff)

lemma liveOK_span:
  "liveOK N rs \<Longrightarrow> rs \<noteq> [] \<Longrightarrow>
     0 \<le> topR (hd rs) \<and> topR (hd rs) < botR (last rs) \<and> botR (last rs) \<le> N"
proof (induction rs)
  case Nil
  then show ?case by simp
next
  case (Cons r rs)
  show ?case
  proof (cases "rs = []")
    case True
    with Cons.prems show ?thesis by (simp add: liveOK_Cons)
  next
    case False
    with Cons show ?thesis by (auto simp: liveOK_Cons)
  qed
qed

lemma ranges_Nil: "ranges s = [] \<longleftrightarrow> blocks s = []"
  by (simp add: ranges_def)

lemma getCoveredRange_ok:
  assumes "liveOK N (ranges s)"
  shows "getCoveredRange s = Inr (coveredOf (ranges s))"
proof (cases "blocks s = []")
  case True
  then show ?thesis by (simp add: getCoveredRange_def new_Range_def coveredOf_def ranges_def)
next
  case False
  then have ne: "ranges s \<noteq> []" by (simp add: ranges_def)
  from liveOK_span [OF assms ne] False show ?thesis
    by (simp add: getCoveredRange_def new_Range_def coveredOf_def ranges_def hd_map last_map)
qed

lemma contains_covered:
  assumes "liveOK N rs" "topR t \<le> botR t"
  shows "containsRange (coveredOf rs) t = covers rs t"
proof (cases "rs = []")
  case True
  with assms(2) show ?thesis
    by (auto simp: containsRange_def containsNum_def coveredOf_def covers_def height_def)
next
  case False
  from liveOK_span [OF assms(1) False] False assms(2) show ?thesis
    by (auto simp: containsRange_def containsNum_def coveredOf_def covers_def height_def)
qed


lemma sameTargets_refl: "sameTargets s s"
  by (simp add: sameTargets_def)

lemma sameTargets_trans: "sameTargets s s1 \<Longrightarrow> sameTargets s1 s2 \<Longrightarrow> sameTargets s s2"
  by (simp add: sameTargets_def)

lemma addBlockAtStart_ok:
  assumes "0 \<le> N" "liveOK N (ranges s)" "blocks s \<noteq> []" "1 \<le> preferredBlockSize s"
    and "0 < topR (hd (ranges s))"
  shows "\<exists>s' r. addBlockAtStart N s = Inr s' \<and> sameTargets s s' \<and> ranges s' = r # ranges s
            \<and> liveOK N (ranges s')
            \<and> topR r = max 0 (topR (hd (ranges s)) - preferredBlockSize s)"
proof -
  let ?a = "topR (hd (ranges s))"
  let ?r = "\<lparr>topR = ?a - preferredBlockSize s, botR = ?a\<rparr>"
  have ne: "ranges s \<noteq> []" using assms(3) by (simp add: ranges_def)
  have cov: "getCoveredRange s = Inr (coveredOf (ranges s))"
    by (rule getCoveredRange_ok [OF assms(2)])
  have top: "topR (coveredOf (ranges s)) = ?a" using ne by (simp add: coveredOf_def)
  have span: "?a < botR (last (ranges s))" "botR (last (ranges s)) \<le> N"
    using liveOK_span [OF assms(2) ne] by simp_all
  have nr: "new_Range (?a - preferredBlockSize s) ?a = Inr ?r"
    using assms(4) by (simp add: new_Range_def)
  have "topR ?r < botR ?r" "topR ?r < N" "0 < botR ?r"
    using assms(4,5) span by simp_all
  from createBlockClamped_ok [OF assms(1) this, of s]
  obtain b cs where b: "createBlockClamped N ?r s
                  = Inr (b, s\<lparr>nextId := nextId s + 1, calls := calls s @ cs\<rparr>)"
    "getRange b = \<lparr>topR = max 0 (topR ?r), botR = min N (botR ?r)\<rparr>" by blast
  let ?s' = "s\<lparr>nextId := nextId s + 1, calls := calls s @ cs, blocks := b # blocks s\<rparr>"
  have res: "addBlockAtStart N s = Inr ?s'"
    using cov top nr b(1) by (simp add: addBlockAtStart_def bindE_def)
  have rs: "ranges ?s' = getRange b # ranges s" by (simp add: ranges_def)
  have live: "liveOK N (ranges ?s')"
    unfolding rs liveOK_Cons using b(2) assms(2,4,5) span by auto
  have "sameTargets s ?s'" by (simp add: sameTargets_def)
  moreover have "topR (getRange b) = max 0 (?a - preferredBlockSize s)" using b(2) by simp
  ultimately show ?thesis using res rs live by blast
qed

lemma addBlockAtEnd_ok:
  assumes "0 \<le> N" "liveOK N (ranges s)" "blocks s \<noteq> []" "1 \<le> preferredBlockSize s"
    and "botR (last (ranges s)) < N"
  shows "\<exists>s' r. addBlockAtEnd N s = Inr s' \<and> sameTargets s s' \<and> ranges s' = ranges s @ [r]
            \<and> liveOK N (ranges s')
            \<and> botR r = min N (botR (last (ranges s)) + preferredBlockSize s)"
proof -
  let ?b = "botR (last (ranges s))"
  let ?r = "\<lparr>topR = ?b, botR = ?b + preferredBlockSize s\<rparr>"
  have ne: "ranges s \<noteq> []" using assms(3) by (simp add: ranges_def)
  have cov: "getCoveredRange s = Inr (coveredOf (ranges s))"
    by (rule getCoveredRange_ok [OF assms(2)])
  have bot: "botR (coveredOf (ranges s)) = ?b" using ne by (simp add: coveredOf_def)
  have span: "0 \<le> topR (hd (ranges s))" "topR (hd (ranges s)) < ?b"
    using liveOK_span [OF assms(2) ne] by simp_all
  have nr: "new_Range ?b (?b + preferredBlockSize s) = Inr ?r"
    using assms(4) by (simp add: new_Range_def)
  have "topR ?r < botR ?r" "topR ?r < N" "0 < botR ?r"
    using assms(4,5) span by simp_all
  from createBlockClamped_ok [OF assms(1) this, of s]
  obtain b cs where b: "createBlockClamped N ?r s
                  = Inr (b, s\<lparr>nextId := nextId s + 1, calls := calls s @ cs\<rparr>)"
    "getRange b = \<lparr>topR = max 0 (topR ?r), botR = min N (botR ?r)\<rparr>" by blast
  let ?s' = "s\<lparr>nextId := nextId s + 1, calls := calls s @ cs, blocks := blocks s @ [b]\<rparr>"
  have res: "addBlockAtEnd N s = Inr ?s'"
    using cov bot nr b(1) by (simp add: addBlockAtEnd_def bindE_def)
  have rs: "ranges ?s' = ranges s @ [getRange b]" by (simp add: ranges_def)
  have live: "liveOK N (ranges ?s')"
    unfolding rs liveOK_snoc using b(2) assms(2,4,5) span by auto
  have "sameTargets s ?s'" by (simp add: sameTargets_def)
  moreover have "botR (getRange b) = min N (?b + preferredBlockSize s)" using b(2) by simp
  ultimately show ?thesis using res rs live by blast
qed


lemma ext_Cons:
  "liveOK N (r # rs) \<Longrightarrow> rs \<noteq> [] \<Longrightarrow>
     topR (hd (r # rs)) \<le> topR (hd rs) \<and> last (r # rs) = last rs"
  by (auto simp: liveOK_Cons)

lemma ext_snoc:
  "liveOK N (rs @ [r]) \<Longrightarrow> rs \<noteq> [] \<Longrightarrow>
     hd (rs @ [r]) = hd rs \<and> botR (last rs) \<le> botR (last (rs @ [r]))"
  by (auto simp: liveOK_snoc)

lemma coverLoop_ok:
  assumes "0 \<le> N" "withinRows N t"
  shows "liveOK N (ranges s) \<Longrightarrow> blocks s \<noteq> [] \<Longrightarrow> 1 \<le> preferredBlockSize s \<Longrightarrow>
     \<exists>x s'. coverLoop N t k s = Inr (x, s') \<and> sameTargets s s' \<and> liveOK N (ranges s')
        \<and> blocks s' \<noteq> []
        \<and> topR (hd (ranges s')) \<le> topR (hd (ranges s))
        \<and> botR (last (ranges s)) \<le> botR (last (ranges s'))
        \<and> (x = ReturnedCovered \<longrightarrow> covers (ranges s') t)"
proof (induction k arbitrary: s)
  case 0
  then show ?case by (simp add: sameTargets_refl)
next
  case (Suc k)
  let ?c = "coveredOf (ranges s)"
  have ne: "ranges s \<noteq> []" using Suc.prems(2) by (simp add: ranges_def)
  have cov: "getCoveredRange s = Inr ?c" by (rule getCoveredRange_ok [OF Suc.prems(1)])
  have tv: "topR t \<le> botR t" "0 \<le> topR t" "botR t \<le> N"
    using assms(2) by (simp_all add: withinRows_def)
  have ctop: "topR ?c = topR (hd (ranges s))" and cbot: "botR ?c = botR (last (ranges s))"
    using ne by (simp_all add: coveredOf_def)
  show ?case
  proof (cases "containsRange ?c t")
    case True
    then have "covers (ranges s) t" using contains_covered [OF Suc.prems(1) tv(1)] by simp
    moreover have "coverLoop N t (Suc k) s = Inr (ReturnedCovered, s)"
      using cov True by (simp add: bindE_def)
    ultimately show ?thesis using Suc.prems by (simp add: sameTargets_refl)
  next
    case False
    have "\<exists>s1. (if topR t < topR ?c then addBlockAtStart N s else Inr s) = Inr s1
            \<and> sameTargets s s1 \<and> liveOK N (ranges s1) \<and> blocks s1 \<noteq> []
            \<and> topR (hd (ranges s1)) \<le> topR (hd (ranges s))
            \<and> last (ranges s1) = last (ranges s)"
    proof (cases "topR t < topR ?c")
      case True
      then have "0 < topR (hd (ranges s))" using tv(2) ctop by simp
      from addBlockAtStart_ok [OF assms(1) Suc.prems(1,2,3) this]
      obtain s1 r where s1: "addBlockAtStart N s = Inr s1" "sameTargets s s1"
        "ranges s1 = r # ranges s" "liveOK N (ranges s1)" by blast
      have "blocks s1 \<noteq> []" using s1(3) by (auto simp: ranges_def)
      moreover have "topR (hd (ranges s1)) \<le> topR (hd (ranges s)) \<and> last (ranges s1) = last (ranges s)"
        using ext_Cons [of N r "ranges s"] s1(3,4) ne by simp
      ultimately show ?thesis using True s1 by simp
    next
      case False
      then show ?thesis using Suc.prems ne by (simp add: sameTargets_refl)
    qed
    then obtain s1 where s1: "(if topR t < topR ?c then addBlockAtStart N s else Inr s) = Inr s1"
      "sameTargets s s1" "liveOK N (ranges s1)" "blocks s1 \<noteq> []"
      "topR (hd (ranges s1)) \<le> topR (hd (ranges s))" "last (ranges s1) = last (ranges s)"
      by blast
    have ne1: "ranges s1 \<noteq> []" using s1(4) by (simp add: ranges_def)
    have p1: "1 \<le> preferredBlockSize s1" using s1(2) Suc.prems(3) by (simp add: sameTargets_def)
    have "\<exists>s2. (if botR t > botR ?c then addBlockAtEnd N s1 else Inr s1) = Inr s2
            \<and> sameTargets s1 s2 \<and> liveOK N (ranges s2) \<and> blocks s2 \<noteq> []
            \<and> hd (ranges s2) = hd (ranges s1)
            \<and> botR (last (ranges s1)) \<le> botR (last (ranges s2))"
    proof (cases "botR t > botR ?c")
      case True
      then have "botR (last (ranges s1)) < N" using tv(3) cbot s1(6) by simp
      from addBlockAtEnd_ok [OF assms(1) s1(3,4) p1 this]
      obtain s2 r where s2: "addBlockAtEnd N s1 = Inr s2" "sameTargets s1 s2"
        "ranges s2 = ranges s1 @ [r]" "liveOK N (ranges s2)" by blast
      have "blocks s2 \<noteq> []" using s2(3) by (auto simp: ranges_def)
      moreover have "hd (ranges s2) = hd (ranges s1) \<and> botR (last (ranges s1)) \<le> botR (last (ranges s2))"
        using ext_snoc [of N "ranges s1" r] s2(3,4) ne1 by simp
      ultimately show ?thesis using True s2 by simp
    next
      case False
      then show ?thesis using s1 by (simp add: sameTargets_refl)
    qed
    then obtain s2 where s2: "(if botR t > botR ?c then addBlockAtEnd N s1 else Inr s1) = Inr s2"
      "sameTargets s1 s2" "liveOK N (ranges s2)" "blocks s2 \<noteq> []"
      "hd (ranges s2) = hd (ranges s1)" "botR (last (ranges s1)) \<le> botR (last (ranges s2))"
      by blast
    have p2: "1 \<le> preferredBlockSize s2" using s2(2) p1 by (simp add: sameTargets_def)
    from Suc.IH [OF s2(3,4) p2]
    obtain x s' where r: "coverLoop N t k s2 = Inr (x, s')" "sameTargets s2 s'"
      "liveOK N (ranges s')" "blocks s' \<noteq> []"
      "topR (hd (ranges s')) \<le> topR (hd (ranges s2))"
      "botR (last (ranges s2)) \<le> botR (last (ranges s'))"
      "x = ReturnedCovered \<longrightarrow> covers (ranges s') t" by blast
    have eq: "coverLoop N t (Suc k) s = coverLoop N t k s2"
      using cov False s1(1) s2(1) by (simp add: bindE_def)
    have st: "sameTargets s s'"
      using sameTargets_trans [OF sameTargets_trans [OF s1(2) s2(2)] r(2)] .
    show ?thesis
      unfolding eq using r st s1(5,6) s2(5,6) by auto
  qed
qed


lemma covers_drop_first:
  assumes "liveOK N (r # rs)" "covers (r # rs) t" "botR r \<le> topR t"
  shows "covers rs t"
proof (cases "botR t \<le> topR t")
  case True
  then show ?thesis by (simp add: covers_def)
next
  case False
  have "rs \<noteq> []"
  proof
    assume "rs = []"
    with assms(2,3) False show False by (simp add: covers_def)
  qed
  with assms False show ?thesis by (auto simp: covers_def liveOK_Cons)
qed

lemma covers_drop_last:
  assumes "liveOK N (rs @ [r])" "covers (rs @ [r]) t" "botR t \<le> topR r"
  shows "covers rs t"
proof (cases "botR t \<le> topR t")
  case True
  then show ?thesis by (simp add: covers_def)
next
  case False
  have "rs \<noteq> []"
  proof
    assume "rs = []"
    with assms(2,3) False show False by (simp add: covers_def)
  qed
  with assms False show ?thesis by (auto simp: covers_def liveOK_snoc)
qed

lemma freeAbove_ok:
  "liveOK N (ranges s) \<Longrightarrow>
     liveOK N (ranges (freeAbove s)) \<and> sameTargets s (freeAbove s)
     \<and> (covers (ranges s) t \<and> topR (leaveRange s) \<le> topR t \<longrightarrow> covers (ranges (freeAbove s)) t)"
proof (induction s rule: freeAbove.induct)
  case (1 s)
  show ?case
  proof (cases "blocks s \<noteq> [] \<and> botR (getRange (hd (blocks s))) \<le> topR (leaveRange s)")
    case False
    then have "freeAbove s = s" by (subst freeAbove.simps) auto
    with "1.prems" show ?thesis by (simp add: sameTargets_refl)
  next
    case True
    then obtain b rest where br: "blocks s = b # rest" by (cases "blocks s") auto
    let ?s1 = "freeBlockAtStart s"
    have s1: "?s1 = s\<lparr>blocks := rest, calls := calls s @ free b\<rparr>"
      using br by (simp add: freeBlockAtStart_def)
    have rs: "ranges s = getRange b # ranges ?s1" using br s1 by (simp add: ranges_def)
    have live1: "liveOK N (ranges ?s1)" using "1.prems" rs by (simp add: liveOK_Cons)
    have st1: "sameTargets s ?s1" using s1 by (simp add: sameTargets_def)
    have eq: "freeAbove s = freeAbove ?s1" using True by (subst freeAbove.simps) auto
    have lo: "botR (getRange b) \<le> topR (leaveRange s)" using True br by simp
    have c1: "covers (ranges s) t \<and> topR (leaveRange s) \<le> topR t \<longrightarrow> covers (ranges ?s1) t"
    proof
      assume a: "covers (ranges s) t \<and> topR (leaveRange s) \<le> topR t"
      have "liveOK N (getRange b # ranges ?s1)" using "1.prems" rs by simp
      moreover have "covers (getRange b # ranges ?s1) t" using a rs by simp
      moreover have "botR (getRange b) \<le> topR t" using a lo by simp
      ultimately show "covers (ranges ?s1) t" by (rule covers_drop_first)
    qed
    from "1.IH" [OF True live1]
    have ih: "liveOK N (ranges (freeAbove ?s1))" "sameTargets ?s1 (freeAbove ?s1)"
      "covers (ranges ?s1) t \<and> topR (leaveRange ?s1) \<le> topR t \<longrightarrow> covers (ranges (freeAbove ?s1)) t"
      by simp_all
    have "leaveRange ?s1 = leaveRange s" using st1 by (simp add: sameTargets_def)
    with ih c1 st1 show ?thesis unfolding eq
      by (auto intro: sameTargets_trans)
  qed
qed

lemma freeBelow_ok:
  "liveOK N (ranges s) \<Longrightarrow>
     liveOK N (ranges (freeBelow s)) \<and> sameTargets s (freeBelow s)
     \<and> (covers (ranges s) t \<and> botR t \<le> botR (leaveRange s) \<longrightarrow> covers (ranges (freeBelow s)) t)"
proof (induction s rule: freeBelow.induct)
  case (1 s)
  show ?case
  proof (cases "blocks s \<noteq> [] \<and> topR (getRange (last (blocks s))) \<ge> botR (leaveRange s)")
    case False
    then have "freeBelow s = s" by (subst freeBelow.simps) auto
    with "1.prems" show ?thesis by (simp add: sameTargets_refl)
  next
    case True
    let ?s1 = "freeBlockAtEnd s"
    let ?b = "last (blocks s)"
    have s1: "?s1 = s\<lparr>blocks := butlast (blocks s), calls := calls s @ free ?b\<rparr>"
      using True by (simp add: freeBlockAtEnd_def)
    have "blocks s = butlast (blocks s) @ [?b]" using True by simp
    then have "map getRange (blocks s) = map getRange (butlast (blocks s) @ [?b])" by simp
    then have rs: "ranges s = ranges ?s1 @ [getRange ?b]" using s1 by (simp add: ranges_def)
    have live1: "liveOK N (ranges ?s1)" using "1.prems" rs by (simp add: liveOK_snoc)
    have st1: "sameTargets s ?s1" using s1 by (simp add: sameTargets_def)
    have eq: "freeBelow s = freeBelow ?s1" using True by (subst freeBelow.simps) auto
    have hi: "botR (leaveRange s) \<le> topR (getRange ?b)" using True by simp
    have c1: "covers (ranges s) t \<and> botR t \<le> botR (leaveRange s) \<longrightarrow> covers (ranges ?s1) t"
    proof
      assume a: "covers (ranges s) t \<and> botR t \<le> botR (leaveRange s)"
      have "liveOK N (ranges ?s1 @ [getRange ?b])" using "1.prems" rs by simp
      moreover have "covers (ranges ?s1 @ [getRange ?b]) t" using a rs by simp
      moreover have "botR t \<le> topR (getRange ?b)" using a hi by simp
      ultimately show "covers (ranges ?s1) t" by (rule covers_drop_last)
    qed
    from "1.IH" [OF True live1]
    have ih: "liveOK N (ranges (freeBelow ?s1))" "sameTargets ?s1 (freeBelow ?s1)"
      "covers (ranges ?s1) t \<and> botR t \<le> botR (leaveRange ?s1) \<longrightarrow> covers (ranges (freeBelow ?s1)) t"
      by simp_all
    have "leaveRange ?s1 = leaveRange s" using st1 by (simp add: sameTargets_def)
    with ih c1 st1 show ?thesis unfolding eq
      by (auto intro: sameTargets_trans)
  qed
qed

lemma makeFirstBlockAt_ok:
  assumes "0 \<le> N" "blocks s = []" "1 \<le> preferredBlockSize s" "0 \<le> targetRow s" "targetRow s < N"
  shows "\<exists>s' r. makeFirstBlockAt N (targetRow s - preferredBlockSize s div 2) s = Inr s'
           \<and> sameTargets s s' \<and> ranges s' = [r] \<and> liveOK N (ranges s')
           \<and> topR r \<le> targetRow s \<and> targetRow s < botR r"
proof -
  let ?i = "targetRow s - preferredBlockSize s div 2"
  let ?r = "\<lparr>topR = ?i, botR = ?i + preferredBlockSize s\<rparr>"
  have nr: "new_Range ?i (?i + preferredBlockSize s) = Inr ?r"
    using assms(3) by (simp add: new_Range_def)
  have half: "0 \<le> preferredBlockSize s div 2" "preferredBlockSize s div 2 < preferredBlockSize s"
    using assms(3) by simp_all
  have "topR ?r < botR ?r" "topR ?r < N" "0 < botR ?r"
    using assms(3,4,5) half by simp_all
  from createBlockClamped_ok [OF assms(1) this, of s]
  obtain b cs where b: "createBlockClamped N ?r s
                  = Inr (b, s\<lparr>nextId := nextId s + 1, calls := calls s @ cs\<rparr>)"
    "getRange b = \<lparr>topR = max 0 (topR ?r), botR = min N (botR ?r)\<rparr>" by blast
  let ?s' = "s\<lparr>nextId := nextId s + 1, calls := calls s @ cs, blocks := [b]\<rparr>"
  have res: "makeFirstBlockAt N ?i s = Inr ?s'"
    using assms(2) nr b(1) by (simp add: makeFirstBlockAt_def bindE_def)
  have rs: "ranges ?s' = [getRange b]" by (simp add: ranges_def)
  have live: "liveOK N (ranges ?s')"
    unfolding rs liveOK_Cons using b(2) assms(3,4,5) half by (auto simp: liveOK_Nil)
  have "sameTargets s ?s'" by (simp add: sameTargets_def)
  moreover have "topR (getRange b) \<le> targetRow s \<and> targetRow s < botR (getRange b)"
    using b(2) assms(3,4,5) half by auto
  ultimately show ?thesis using res rs live by blast
qed


lemma liveOK_ends:
  "liveOK N rs \<Longrightarrow> rs \<noteq> [] \<Longrightarrow>
     botR (hd rs) \<le> botR (last rs) \<and> topR (hd rs) \<le> topR (last rs)"
proof (induction rs)
  case Nil
  then show ?case by simp
next
  case (Cons r rs)
  show ?case
  proof (cases "rs = []")
    case True
    then show ?thesis by simp
  next
    case False
    from Cons.prems have "liveOK N rs" by (simp add: liveOK_Cons)
    from liveOK_span [OF this False] Cons False show ?thesis by (auto simp: liveOK_Cons)
  qed
qed

lemma freeAbove_exit:
  "blocks (freeAbove s) = [] \<or> botR (hd (ranges (freeAbove s))) > topR (leaveRange s)"
proof (induction s rule: freeAbove.induct)
  case (1 s)
  show ?case
  proof (cases "blocks s \<noteq> [] \<and> botR (getRange (hd (blocks s))) \<le> topR (leaveRange s)")
    case False
    then have "freeAbove s = s" by (subst freeAbove.simps) auto
    with False show ?thesis by (cases "blocks s") (auto simp: ranges_def)
  next
    case True
    have eq: "freeAbove s = freeAbove (freeBlockAtStart s)"
      using True by (subst freeAbove.simps) auto
    have "leaveRange (freeBlockAtStart s) = leaveRange s"
      by (simp add: freeBlockAtStart_def split: list.splits)
    with "1.IH" [OF True] show ?thesis unfolding eq by simp
  qed
qed

lemma freeBelow_exit:
  "blocks (freeBelow s) = []
   \<or> (topR (last (ranges (freeBelow s))) < botR (leaveRange s)
       \<and> hd (ranges (freeBelow s)) = hd (ranges s))"
proof (induction s rule: freeBelow.induct)
  case (1 s)
  show ?case
  proof (cases "blocks s \<noteq> [] \<and> topR (getRange (last (blocks s))) \<ge> botR (leaveRange s)")
    case False
    then have "freeBelow s = s" by (subst freeBelow.simps) auto
    with False show ?thesis by (cases "blocks s = []") (auto simp: ranges_def last_map)
  next
    case True
    let ?s1 = "freeBlockAtEnd s"
    have eq: "freeBelow s = freeBelow ?s1"
      using True by (subst freeBelow.simps) auto
    have s1: "leaveRange ?s1 = leaveRange s" "blocks ?s1 = butlast (blocks s)"
      using True by (simp_all add: freeBlockAtEnd_def)
    have h: "blocks ?s1 \<noteq> [] \<longrightarrow> hd (ranges ?s1) = hd (ranges s)"
    proof
      assume n: "blocks ?s1 \<noteq> []"
      then have "butlast (blocks s) \<noteq> []" using s1(2) by simp
      then obtain b bs where "blocks s = b # bs" "bs \<noteq> []"
        by (cases "blocks s") (auto split: if_splits)
      then show "hd (ranges ?s1) = hd (ranges s)" using s1(2) by (simp add: ranges_def)
    qed
    have "blocks (freeBelow ?s1) \<noteq> [] \<longrightarrow> blocks ?s1 \<noteq> []"
      by (subst freeBelow.simps) auto
    with "1.IH" [OF True] h s1(1) show ?thesis unfolding eq by auto
  qed
qed

lemma coverLoop_reaches:
  assumes "0 \<le> N" "withinRows N t"
  shows "liveOK N (ranges s) \<Longrightarrow> blocks s \<noteq> [] \<Longrightarrow> 1 \<le> preferredBlockSize s \<Longrightarrow>
     topR (hd (ranges s)) - topR t \<le> int k * preferredBlockSize s \<Longrightarrow>
     botR t - botR (last (ranges s)) \<le> int k * preferredBlockSize s \<Longrightarrow>
     \<exists>s'. coverLoop N t (Suc k) s = Inr (ReturnedCovered, s')"
proof (induction k arbitrary: s)
  case 0
  have ne: "ranges s \<noteq> []" using "0.prems"(2) by (simp add: ranges_def)
  have tv: "topR t \<le> botR t" using assms(2) by (simp add: withinRows_def)
  have "covers (ranges s) t" using "0.prems"(4,5) ne by (simp add: covers_def)
  then have "containsRange (coveredOf (ranges s)) t"
    using contains_covered [OF "0.prems"(1) tv] by simp
  then show ?case using getCoveredRange_ok [OF "0.prems"(1)] by (simp add: bindE_def)
next
  case (Suc k)
  let ?c = "coveredOf (ranges s)"
  let ?p = "preferredBlockSize s"
  have ne: "ranges s \<noteq> []" using Suc.prems(2) by (simp add: ranges_def)
  have cov: "getCoveredRange s = Inr ?c" by (rule getCoveredRange_ok [OF Suc.prems(1)])
  have tv: "topR t \<le> botR t" "0 \<le> topR t" "botR t \<le> N"
    using assms(2) by (simp_all add: withinRows_def)
  have ctop: "topR ?c = topR (hd (ranges s))" and cbot: "botR ?c = botR (last (ranges s))"
    using ne by (simp_all add: coveredOf_def)
  have gaps: "topR (hd (ranges s)) - topR t \<le> int k * ?p + ?p"
    "botR t - botR (last (ranges s)) \<le> int k * ?p + ?p"
    using Suc.prems(4,5) by (simp_all add: algebra_simps)
  show ?case
  proof (cases "containsRange ?c t")
    case True
    then show ?thesis using cov by (simp add: bindE_def)
  next
    case False
    have "\<exists>s1. (if topR t < topR ?c then addBlockAtStart N s else Inr s) = Inr s1
            \<and> sameTargets s s1 \<and> liveOK N (ranges s1) \<and> blocks s1 \<noteq> []
            \<and> topR (hd (ranges s1)) - topR t \<le> int k * ?p
            \<and> last (ranges s1) = last (ranges s)"
    proof (cases "topR t < topR ?c")
      case True
      then have "0 < topR (hd (ranges s))" using tv(2) ctop by simp
      from addBlockAtStart_ok [OF assms(1) Suc.prems(1,2,3) this]
      obtain s1 r where s1: "addBlockAtStart N s = Inr s1" "sameTargets s s1"
        "ranges s1 = r # ranges s" "liveOK N (ranges s1)"
        "topR r = max 0 (topR (hd (ranges s)) - ?p)" by blast
      have "blocks s1 \<noteq> []" using s1(3) by (auto simp: ranges_def)
      moreover have "last (ranges s1) = last (ranges s)" using s1(3) ne by simp
      moreover have "0 \<le> int k * ?p" using Suc.prems(3) by simp
      then have "topR (hd (ranges s1)) - topR t \<le> int k * ?p"
        using s1(3,5) gaps(1) tv(2) by (auto simp: max_def)
      ultimately show ?thesis using True s1 by simp
    next
      case False
      have "0 \<le> int k * ?p" using Suc.prems(3) by simp
      with False ctop have "topR (hd (ranges s)) - topR t \<le> int k * ?p" by linarith
      with False show ?thesis using Suc.prems(1,2) by (simp add: sameTargets_refl)
    qed
    then obtain s1 where s1: "(if topR t < topR ?c then addBlockAtStart N s else Inr s) = Inr s1"
      "sameTargets s s1" "liveOK N (ranges s1)" "blocks s1 \<noteq> []"
      "topR (hd (ranges s1)) - topR t \<le> int k * ?p" "last (ranges s1) = last (ranges s)"
      by blast
    have ne1: "ranges s1 \<noteq> []" using s1(4) by (simp add: ranges_def)
    have p1: "preferredBlockSize s1 = ?p" using s1(2) by (simp add: sameTargets_def)
    have p1': "1 \<le> preferredBlockSize s1" using p1 Suc.prems(3) by simp
    have "\<exists>s2. (if botR t > botR ?c then addBlockAtEnd N s1 else Inr s1) = Inr s2
            \<and> sameTargets s1 s2 \<and> liveOK N (ranges s2) \<and> blocks s2 \<noteq> []
            \<and> hd (ranges s2) = hd (ranges s1)
            \<and> botR t - botR (last (ranges s2)) \<le> int k * ?p"
    proof (cases "botR t > botR ?c")
      case True
      then have "botR (last (ranges s1)) < N" using tv(3) cbot s1(6) by simp
      from addBlockAtEnd_ok [OF assms(1) s1(3,4) p1' this]
      obtain s2 r where s2: "addBlockAtEnd N s1 = Inr s2" "sameTargets s1 s2"
        "ranges s2 = ranges s1 @ [r]" "liveOK N (ranges s2)"
        "botR r = min N (botR (last (ranges s1)) + preferredBlockSize s1)" by blast
      have "blocks s2 \<noteq> []" using s2(3) by (auto simp: ranges_def)
      moreover have "hd (ranges s2) = hd (ranges s1)" using s2(3) ne1 by simp
      moreover have "0 \<le> int k * ?p" using Suc.prems(3) by simp
      then have "botR t - botR (last (ranges s2)) \<le> int k * ?p"
        using s2(3,5) gaps(2) tv(3) s1(6) p1 by (auto simp: min_def)
      ultimately show ?thesis using True s2 by simp
    next
      case False
      have "0 \<le> int k * ?p" using Suc.prems(3) by simp
      with False cbot s1(6) have "botR t - botR (last (ranges s1)) \<le> int k * ?p" by simp
      with False show ?thesis using s1(3,4) by (simp add: sameTargets_refl)
    qed
    then obtain s2 where s2: "(if botR t > botR ?c then addBlockAtEnd N s1 else Inr s1) = Inr s2"
      "sameTargets s1 s2" "liveOK N (ranges s2)" "blocks s2 \<noteq> []"
      "hd (ranges s2) = hd (ranges s1)" "botR t - botR (last (ranges s2)) \<le> int k * ?p"
      by blast
    have p2: "preferredBlockSize s2 = ?p" using s2(2) p1 by (simp add: sameTargets_def)
    have p2': "1 \<le> preferredBlockSize s2" using p2 Suc.prems(3) by simp
    have g2: "topR (hd (ranges s2)) - topR t \<le> int k * preferredBlockSize s2"
      "botR t - botR (last (ranges s2)) \<le> int k * preferredBlockSize s2"
      using s1(5) s2(5,6) p2 by simp_all
    from Suc.IH [OF s2(3,4) p2' g2]
    obtain s' where r: "coverLoop N t (Suc k) s2 = Inr (ReturnedCovered, s')" by blast
    have "coverLoop N t (Suc (Suc k)) s
            = bindE (getCoveredRange s) (\<lambda>currR.
                if containsRange currR t then Inr (ReturnedCovered, s)
                else
                  bindE (if topR t < topR currR then addBlockAtStart N s else Inr s) (\<lambda>s1.
                  bindE (if botR t > botR currR then addBlockAtEnd N s1 else Inr s1) (\<lambda>s2.
                    coverLoop N t (Suc k) s2)))"
      by (rule coverLoop.simps(2))
    also have "\<dots> = coverLoop N t (Suc k) s2"
      using cov False s1(1) s2(1) by (simp add: bindE_def del: coverLoop.simps)
    finally have "coverLoop N t (Suc (Suc k)) s = coverLoop N t (Suc k) s2" .
    with r show ?thesis by simp
  qed
qed

lemma covers_extend:
  assumes "covers rs t" "rs' \<noteq> []" "rs \<noteq> [] \<longrightarrow> topR (hd rs') \<le> topR (hd rs) \<and> botR (last rs) \<le> botR (last rs')"
  shows "covers rs' t"
  using assms by (auto simp: covers_def)

lemma leave_bounds:
  assumes "containsRange l t" "topR t < botR t"
  shows "topR l \<le> topR t \<and> botR t \<le> botR l"
  using assms by (auto simp: containsRange_def containsNum_def height_def)

lemma ensureCovers_resume_ok:
  assumes N: "0 \<le> N" and live: "liveOK N (ranges s)" and p: "1 \<le> preferredBlockSize s"
    and t: "withinRows N t" and lv: "containsRange (leaveRange s) (targetRange s)"
    and row: "0 \<le> targetRow s" "targetRow s < N"
  shows "\<exists>x s'. ensureCovers_resume N t s = Inr (x, s') \<and> sameTargets s s'
           \<and> liveOK N (ranges s')
           \<and> (x = ReturnedCovered \<longrightarrow> covers (ranges s') t)
           \<and> (covers (ranges s) (targetRange s) \<longrightarrow> covers (ranges s') (targetRange s))
           \<and> ranges s' \<noteq> []"
proof -
  let ?T = "targetRange s"
  let ?s1 = "freeAbove s"
  let ?s2 = "freeBelow ?s1"
  have dbg: "debug s = Inr ()"
    using getCoveredRange_ok [OF live] lv by (simp add: debug_def bindE_def)
  have f1: "liveOK N (ranges ?s1)" "sameTargets s ?s1"
    "covers (ranges s) ?T \<and> topR (leaveRange s) \<le> topR ?T \<longrightarrow> covers (ranges ?s1) ?T"
    using freeAbove_ok [OF live, of ?T] by simp_all
  have f2: "liveOK N (ranges ?s2)" "sameTargets ?s1 ?s2"
    "covers (ranges ?s1) ?T \<and> botR ?T \<le> botR (leaveRange ?s1) \<longrightarrow> covers (ranges ?s2) ?T"
    using freeBelow_ok [OF f1(1), of ?T] by simp_all
  have st2: "sameTargets s ?s2" using sameTargets_trans [OF f1(2) f2(2)] .
  have l1: "leaveRange ?s1 = leaveRange s" using f1(2) by (simp add: sameTargets_def)
  have c2: "covers (ranges s) ?T \<longrightarrow> covers (ranges ?s2) ?T"
  proof (cases "topR ?T < botR ?T")
    case True
    from leave_bounds [OF lv True] f1(3) f2(3) l1 show ?thesis by simp
  next
    case False
    then show ?thesis by (simp add: covers_def)
  qed
  have "\<exists>s3. (if blocks ?s2 = [] then
                   (let halfBlock = preferredBlockSize ?s2 div 2
                    in makeFirstBlockAt N (targetRow ?s2 - halfBlock) ?s2)
                 else Inr ?s2) = Inr s3
          \<and> sameTargets ?s2 s3 \<and> liveOK N (ranges s3) \<and> blocks s3 \<noteq> []
          \<and> (covers (ranges ?s2) ?T \<longrightarrow> covers (ranges s3) ?T)"
  proof (cases "blocks ?s2 = []")
    case True
    have p2: "1 \<le> preferredBlockSize ?s2" "0 \<le> targetRow ?s2" "targetRow ?s2 < N"
      using st2 p row by (simp_all add: sameTargets_def)
    from makeFirstBlockAt_ok [OF N True p2]
    obtain s3 r where s3: "makeFirstBlockAt N (targetRow ?s2 - preferredBlockSize ?s2 div 2) ?s2 = Inr s3"
      "sameTargets ?s2 s3" "ranges s3 = [r]" "liveOK N (ranges s3)" by blast
    have ne: "blocks s3 \<noteq> []" using s3(3) by (auto simp: ranges_def)
    have "covers (ranges ?s2) ?T \<longrightarrow> covers (ranges s3) ?T"
      using True by (simp add: covers_def ranges_def)
    with s3 ne True show ?thesis by (simp add: Let_def)
  next
    case False
    with f2(1) show ?thesis by (simp add: sameTargets_refl)
  qed
  then obtain s3 where s3: "(if blocks ?s2 = [] then
                   (let halfBlock = preferredBlockSize ?s2 div 2
                    in makeFirstBlockAt N (targetRow ?s2 - halfBlock) ?s2)
                 else Inr ?s2) = Inr s3"
      "sameTargets ?s2 s3" "liveOK N (ranges s3)" "blocks s3 \<noteq> []"
      "covers (ranges ?s2) ?T \<longrightarrow> covers (ranges s3) ?T" by blast
  have p3: "1 \<le> preferredBlockSize s3"
    using sameTargets_trans [OF st2 s3(2)] p by (simp add: sameTargets_def)
  from coverLoop_ok [OF N t s3(3,4) p3, of 10]
  obtain x s' where r: "coverLoop N t 10 s3 = Inr (x, s')" "sameTargets s3 s'"
      "liveOK N (ranges s')" "blocks s' \<noteq> []"
      "topR (hd (ranges s')) \<le> topR (hd (ranges s3))"
      "botR (last (ranges s3)) \<le> botR (last (ranges s'))"
      "x = ReturnedCovered \<longrightarrow> covers (ranges s') t" by blast
  have res: "ensureCovers_resume N t s = Inr (x, s')"
    using dbg s3(1) r(1) by (simp add: ensureCovers_resume_def bindE_def Let_def)
  have st: "sameTargets s s'"
    using sameTargets_trans [OF sameTargets_trans [OF st2 s3(2)] r(2)] .
  have ne': "ranges s' \<noteq> []" using r(4) by (simp add: ranges_def)
  have "covers (ranges s3) ?T \<longrightarrow> covers (ranges s') ?T"
    using covers_extend [of "ranges s3" ?T "ranges s'"] ne' r(5,6) by blast
  with c2 s3(5) have "covers (ranges s) ?T \<longrightarrow> covers (ranges s') ?T" by blast
  with res st r(3,7) ne' show ?thesis by blast
qed

lemma jsRound_below: "0 \<le> h \<Longrightarrow> jsRound (real_of_int a - real_of_int h / 3) \<le> a"
  by (simp add: jsRound_def floor_le_iff)

lemma jsRound_above: "0 \<le> h \<Longrightarrow> a \<le> jsRound (real_of_int a + real_of_int h / 3)"
  by (simp add: jsRound_def le_floor_iff)

lemma jsRound_above_slack:
  "3 * (jsRound (real_of_int a + real_of_int h / 3) - a) \<le> h + 1"
proof -
  let ?x = "real_of_int a + real_of_int h / 3 + 1 / 2"
  have "real_of_int \<lfloor>?x\<rfloor> \<le> ?x" by (rule of_int_floor_le)
  then have "3 * real_of_int \<lfloor>?x\<rfloor> - 3 * real_of_int a < real_of_int h + 2" by linarith
  then have "real_of_int (3 * (\<lfloor>?x\<rfloor> - a)) < real_of_int (h + 2)" by simp
  then have "3 * (\<lfloor>?x\<rfloor> - a) < h + 2" by (simp only: of_int_less_iff)
  then show ?thesis by (simp add: jsRound_def)
qed

lemma jsRound_below_slack:
  "3 * (a - jsRound (real_of_int a - real_of_int h / 3)) \<le> h + 1"
proof -
  let ?x = "real_of_int a - real_of_int h / 3 + 1 / 2"
  have "?x < real_of_int \<lfloor>?x\<rfloor> + 1" by linarith
  then have "3 * real_of_int a - 3 * real_of_int \<lfloor>?x\<rfloor> < real_of_int h + 2" by linarith
  then have "real_of_int (3 * (a - \<lfloor>?x\<rfloor>)) < real_of_int (h + 2)" by simp
  then have "3 * (a - \<lfloor>?x\<rfloor>) < h + 2" by (simp only: of_int_less_iff)
  then show ?thesis by (simp add: jsRound_def)
qed

lemma setTarget_ok:
  assumes N: "0 \<le> N" and r: "withinRows N r" and live: "liveOK N (ranges s)"
  shows "\<exists>t s'. setTarget N r f s = Inr (t, s') \<and> ranges s' = ranges s \<and> targetRange s' = r
           \<and> targetRow s' = f \<and> preferredBlockSize s' = preferredBlockSize s
           \<and> containsRange (leaveRange s') r
           \<and> (t = None \<and> covers (ranges s) r \<or> t = Some r)
           \<and> 3 * (botR (leaveRange s') - botR r) \<le> height r + 1
           \<and> 3 * (topR r - topR (leaveRange s')) \<le> height r + 1"
proof -
  let ?h = "height r"
  let ?nt = "jsRound (real_of_int (topR r) - real_of_int ?h / 3)"
  let ?nb = "jsRound (real_of_int (botR r) + real_of_int ?h / 3)"
  let ?l = "clampTo \<lparr>topR = ?nt, botR = ?nb\<rparr> \<lparr>topR = 0, botR = N\<rparr>"
  let ?s1 = "s\<lparr>targetRow := f, targetRange := r, leaveRange := ?l\<rparr>"
  have rv: "0 \<le> topR r" "topR r \<le> botR r" "botR r \<le> N"
    using r by (simp_all add: withinRows_def)
  have h: "0 \<le> ?h" using rv by (simp add: height_def)
  have nt: "?nt \<le> topR r" by (rule jsRound_below [OF h])
  have nb: "botR r \<le> ?nb" by (rule jsRound_above [OF h])
  have wide: "new_Range ?nt ?nb = Inr \<lparr>topR = ?nt, botR = ?nb\<rparr>"
    using nt nb rv by (simp add: new_Range_def)
  have lb: "topR ?l \<le> topR r \<and> botR r \<le> botR ?l"
    using nt nb rv by (auto simp: clampTo_def Let_def)
  have lc: "containsRange ?l r"
    using lb rv by (auto simp: containsRange_def containsNum_def height_def)
  have sl: "3 * (botR ?l - botR r) \<le> height r + 1" "3 * (topR r - topR ?l) \<le> height r + 1"
    using jsRound_above_slack [of "botR r" ?h] jsRound_below_slack [of "topR r" ?h] nt nb rv h
    by (auto simp: clampTo_def Let_def)
  have rs1: "ranges ?s1 = ranges s" by (simp add: ranges_def)
  have cov: "getCoveredRange ?s1 = Inr (coveredOf (ranges s))"
    using getCoveredRange_ok [of N ?s1] live rs1 by simp
  have cc: "containsRange (coveredOf (ranges s)) r = covers (ranges s) r"
    by (rule contains_covered [OF live rv(2)])
  have st: "setTarget N r f s = ensureCovers_begin ?s1"
    using wide N by (simp add: setTarget_def Let_def bindE_def new_Range_def)
  show ?thesis
  proof (cases "covers (ranges s) r")
    case True
    then have "ensureCovers_begin ?s1 = Inr (None, ?s1)"
      using cov cc by (simp add: ensureCovers_begin_def bindE_def Let_def)
    with st True lc rs1 sl show ?thesis by simp
  next
    case False
    let ?s2 = "?s1\<lparr>calls := calls ?s1 @ [ScheduleWrite OwnerBlockSet]\<rparr>"
    have "ensureCovers_begin ?s1 = Inr (Some r, ?s2)"
      using cov cc False by (simp add: ensureCovers_begin_def bindE_def Let_def)
    moreover have "ranges ?s2 = ranges s" by (simp add: ranges_def)
    ultimately show ?thesis using st lc sl by simp
  qed
qed


lemma freeBelow_nonempty: "blocks (freeBelow s) \<noteq> [] \<Longrightarrow> blocks s \<noteq> []"
  by (subst (asm) freeBelow.simps) (auto split: if_splits)

lemma ensureCovers_resume_reaches:
  assumes N: "0 \<le> N" and live: "liveOK N (ranges s)" and p: "5 \<le> preferredBlockSize s"
    and t: "withinRows N (targetRange s)"
    and lv: "containsRange (leaveRange s) (targetRange s)"
    and row: "topR (targetRange s) \<le> targetRow s" "targetRow s < botR (targetRange s)"
    and small: "height (targetRange s) \<le> 34"
    and slack: "3 * (botR (leaveRange s) - botR (targetRange s)) \<le> height (targetRange s) + 1"
               "3 * (topR (targetRange s) - topR (leaveRange s)) \<le> height (targetRange s) + 1"
  shows "\<exists>s'. ensureCovers_resume N (targetRange s) s = Inr (ReturnedCovered, s')"
proof -
  let ?T = "targetRange s"
  let ?L = "leaveRange s"
  let ?s1 = "freeAbove s"
  let ?s2 = "freeBelow ?s1"
  have tv: "0 \<le> topR ?T" "botR ?T \<le> N" using t by (simp_all add: withinRows_def)
  have dbg: "debug s = Inr ()"
    using getCoveredRange_ok [OF live] lv by (simp add: debug_def bindE_def)
  have f1: "liveOK N (ranges ?s1)" "sameTargets s ?s1" using freeAbove_ok [OF live] by simp_all
  have f2: "liveOK N (ranges ?s2)" "sameTargets ?s1 ?s2" using freeBelow_ok [OF f1(1)] by simp_all
  have st2: "sameTargets s ?s2" using sameTargets_trans [OF f1(2) f2(2)] .
  have same2: "preferredBlockSize ?s2 = preferredBlockSize s" "targetRow ?s2 = targetRow s"
    using st2 by (simp_all add: sameTargets_def)
  have l1: "leaveRange ?s1 = ?L" using f1(2) by (simp add: sameTargets_def)
  have h: "height ?T = botR ?T - topR ?T" by (simp add: height_def)
  have "\<exists>s3. (if blocks ?s2 = [] then
                   (let halfBlock = preferredBlockSize ?s2 div 2
                    in makeFirstBlockAt N (targetRow ?s2 - halfBlock) ?s2)
                 else Inr ?s2) = Inr s3
          \<and> sameTargets ?s2 s3 \<and> liveOK N (ranges s3) \<and> blocks s3 \<noteq> []
          \<and> topR (hd (ranges s3)) - topR ?T \<le> 45
          \<and> botR ?T - botR (last (ranges s3)) \<le> 45"
  proof (cases "blocks ?s2 = []")
    case True
    have p2: "1 \<le> preferredBlockSize ?s2" "0 \<le> targetRow ?s2" "targetRow ?s2 < N"
      using same2 p row tv by simp_all
    from makeFirstBlockAt_ok [OF N True p2]
    obtain s3 r where s3: "makeFirstBlockAt N (targetRow ?s2 - preferredBlockSize ?s2 div 2) ?s2 = Inr s3"
      "sameTargets ?s2 s3" "ranges s3 = [r]" "liveOK N (ranges s3)"
      "topR r \<le> targetRow ?s2" "targetRow ?s2 < botR r" by blast
    have ne: "blocks s3 \<noteq> []" using s3(3) by (auto simp: ranges_def)
    have "topR (hd (ranges s3)) - topR ?T \<le> 45" "botR ?T - botR (last (ranges s3)) \<le> 45"
      using s3(3,5,6) same2 row small h by simp_all
    with s3 ne True show ?thesis by (simp add: Let_def)
  next
    case False
    then have ne2: "ranges ?s2 \<noteq> []" by (simp add: ranges_def)
    have ne1: "blocks ?s1 \<noteq> []" by (rule freeBelow_nonempty [OF False])
    from freeBelow_exit [of ?s1] False l1
    have b: "topR (last (ranges ?s2)) < botR ?L" "hd (ranges ?s2) = hd (ranges ?s1)" by simp_all
    from freeAbove_exit [of s] ne1 have a: "botR (hd (ranges ?s1)) > topR ?L" by simp
    from liveOK_ends [OF f2(1) ne2]
    have e: "botR (hd (ranges ?s2)) \<le> botR (last (ranges ?s2))"
      "topR (hd (ranges ?s2)) \<le> topR (last (ranges ?s2))" by simp_all
    have "topR (hd (ranges ?s2)) - topR ?T \<le> 45" "botR ?T - botR (last (ranges ?s2)) \<le> 45"
      using a b e slack small h by simp_all
    with False f2(1) show ?thesis by (simp add: sameTargets_refl)
  qed
  then obtain s3 where s3: "(if blocks ?s2 = [] then
                   (let halfBlock = preferredBlockSize ?s2 div 2
                    in makeFirstBlockAt N (targetRow ?s2 - halfBlock) ?s2)
                 else Inr ?s2) = Inr s3"
      "sameTargets ?s2 s3" "liveOK N (ranges s3)" "blocks s3 \<noteq> []"
      "topR (hd (ranges s3)) - topR ?T \<le> 45" "botR ?T - botR (last (ranges s3)) \<le> 45" by blast
  have p3: "preferredBlockSize s3 = preferredBlockSize s"
    using sameTargets_trans [OF st2 s3(2)] by (simp add: sameTargets_def)
  have p3': "1 \<le> preferredBlockSize s3" using p3 p by simp
  have g: "topR (hd (ranges s3)) - topR ?T \<le> int 9 * preferredBlockSize s3"
    "botR ?T - botR (last (ranges s3)) \<le> int 9 * preferredBlockSize s3"
    using s3(5,6) p3 p by simp_all
  from coverLoop_reaches [OF N t s3(3,4) p3' g]
  obtain s' where r: "coverLoop N ?T (Suc 9) s3 = Inr (ReturnedCovered, s')" by blast
  have ten: "(10::nat) = Suc 9" by simp
  have "ensureCovers_resume N ?T s = Inr (ReturnedCovered, s')"
    using dbg s3(1) r unfolding ensureCovers_resume_def ten
    by (simp add: bindE_def Let_def del: coverLoop.simps)
  then show ?thesis by blast
qed

lemma updateBlockTimes_lower:
  "minBlockSize \<le> preferredBlockSize s \<Longrightarrow> minBlockSize \<le> preferredBlockSize (updateBlockTimes time s)"
  by (simp add: updateBlockTimes_def Let_def)

lemma updateBlockTimes_frame:
  "blocks (updateBlockTimes time s) = blocks s \<and> targetRange (updateBlockTimes time s) = targetRange s
   \<and> leaveRange (updateBlockTimes time s) = leaveRange s
   \<and> targetRow (updateBlockTimes time s) = targetRow s"
  by (simp add: updateBlockTimes_def Let_def)

lemma ranges_update:
  assumes "getRange b' = getRange (bs ! k)"
  shows "map getRange (bs[k := b']) = map getRange bs"
proof (rule nth_equalityI)
  show "length (map getRange (bs[k := b'])) = length (map getRange bs)" by simp
next
  fix i assume "i < length (map getRange (bs[k := b']))"
  then have i: "i < length bs" by simp
  show "map getRange (bs[k := b']) ! i = map getRange bs ! i"
    using i assms by (cases "i = k") simp_all
qed

lemma doPrepare_frame:
  "ranges (doPrepare k deltaT s) = ranges s \<and> targetRange (doPrepare k deltaT s) = targetRange s
   \<and> leaveRange (doPrepare k deltaT s) = leaveRange s
   \<and> targetRow (doPrepare k deltaT s) = targetRow s
   \<and> (5 \<le> preferredBlockSize s \<longrightarrow> 5 \<le> preferredBlockSize (doPrepare k deltaT s))"
proof -
  let ?b' = "fst (prepare (blocks s ! k))"
  let ?s1 = "s\<lparr>blocks := (blocks s)[k := ?b'], calls := calls s @ snd (prepare (blocks s ! k))\<rparr>"
  have g: "getRange ?b' = getRange (blocks s ! k)" by (simp add: prepare_def getRange_def)
  have r1: "ranges ?s1 = ranges s" using ranges_update [OF g] by (simp add: ranges_def)
  have d: "doPrepare k deltaT s
        = (if height (getRange ?b') = preferredBlockSize ?s1 then updateBlockTimes deltaT ?s1 else ?s1)
            \<lparr>calls := calls (if height (getRange ?b') = preferredBlockSize ?s1
                             then updateBlockTimes deltaT ?s1 else ?s1) @ [RenderLater]\<rparr>"
    by (simp add: doPrepare_def Let_def split_beta)
  have u: "ranges (updateBlockTimes deltaT ?s1) = ranges s"
    using updateBlockTimes_frame [of deltaT ?s1] r1 by (simp add: ranges_def)
  have lo: "5 \<le> preferredBlockSize s \<longrightarrow> 5 \<le> preferredBlockSize (updateBlockTimes deltaT ?s1)"
    using updateBlockTimes_lower [of ?s1 deltaT] by (simp add: minBlockSize_def)
  show ?thesis
    unfolding d using r1 u lo updateBlockTimes_frame [of deltaT ?s1]
    by (auto simp: ranges_def)
qed

lemma getNext_total: "0 \<le> N \<Longrightarrow> \<exists>r. getNextUnpreparedBlock N s = Inr r"
  by (simp add: getNextUnpreparedBlock_def new_Range_def bindE_def Let_def)

lemma doWork_frame:
  assumes "0 \<le> N"
  shows "\<exists>s'. doWork False N evt u deltaT s = Inr s' \<and> ranges s' = ranges s
          \<and> targetRange s' = targetRange s \<and> leaveRange s' = leaveRange s
          \<and> targetRow s' = targetRow s
          \<and> (5 \<le> preferredBlockSize s \<longrightarrow> 5 \<le> preferredBlockSize s')"
proof -
  obtain r where r: "getNextUnpreparedBlock N s = Inr r" using getNext_total [OF assms] by blast
  show ?thesis
  proof (cases r)
    case None
    with r show ?thesis by (simp add: doWork_def bindE_def)
  next
    case (Some k)
    with r have "doWork False N evt u deltaT s
                   = (if u > loadFactor evt then Inr (doPrepare k deltaT s) else Inr s)"
      by (simp add: doWork_def bindE_def Let_def)
    with doPrepare_frame [of k deltaT s] show ?thesis by auto
  qed
qed

lemma runInv_init: "0 \<le> N \<Longrightarrow> runInv N (new_BlockSetImpl, [], [])"
  by (simp add: runInv_def new_BlockSetImpl_def liveOK_Nil ranges_def initialBlockSize_def
        withinRows_def containsRange_def height_def covers_def)

lemma resume_step_inv:
  assumes N: "0 \<le> N" and inv: "runInv N (s, t # ts, exits)"
  shows "\<exists>x s1. ensureCovers_resume N t s = Inr (x, s1) \<and> runInv N (s1, ts, exits @ [x])
           \<and> sameTargets s s1 \<and> ranges s1 \<noteq> [] 
           \<and> (x = ReturnedCovered \<longrightarrow> covers (ranges s1) t)
           \<and> (covers (ranges s) (targetRange s) \<longrightarrow> covers (ranges s1) (targetRange s))"
proof -
  from inv have inv: "liveOK N (ranges s)" "5 \<le> preferredBlockSize s"
    "withinRows N (targetRange s)" "containsRange (leaveRange s) (targetRange s)"
    "0 \<le> targetRow s" "targetRow s < N" "withinRows N t" "list_all (withinRows N) ts"
    "covers (ranges s) (targetRange s) \<or> last (t # ts) = targetRange s"
    by (auto simp: runInv_def)
  have p: "1 \<le> preferredBlockSize s" using inv(2) by simp
  from ensureCovers_resume_ok [OF N inv(1) p inv(7) inv(4) inv(5) inv(6)]
  obtain x s1 where r: "ensureCovers_resume N t s = Inr (x, s1)" "sameTargets s s1"
    "liveOK N (ranges s1)" "x = ReturnedCovered \<longrightarrow> covers (ranges s1) t"
    "covers (ranges s) (targetRange s) \<longrightarrow> covers (ranges s1) (targetRange s)"
    "ranges s1 \<noteq> []" by blast
  have same: "targetRange s1 = targetRange s" "leaveRange s1 = leaveRange s"
    "targetRow s1 = targetRow s" "preferredBlockSize s1 = preferredBlockSize s"
    using r(2) by (simp_all add: sameTargets_def)
  have cov: "covers (ranges s1) (targetRange s1)
            \<or> (ts \<noteq> [] \<and> last ts = targetRange s1)
            \<or> (ts = [] \<and> last (exits @ [x]) = LoopExhausted)"
  proof (cases "covers (ranges s) (targetRange s)")
    case True
    with r(5) same show ?thesis by simp
  next
    case False
    with inv(9) have l: "last (t # ts) = targetRange s" by blast
    show ?thesis
    proof (cases "ts = []")
      case True
      with l have "t = targetRange s" by simp
      with r(4) same True show ?thesis by (cases x) auto
    next
      case False
      with l same show ?thesis by simp
    qed
  qed
  have "runInv N (s1, ts, exits @ [x])"
    using r(3) inv same cov by (simp add: runInv_def)
  with r show ?thesis by blast
qed

lemma resumeAll_ok:
  assumes N: "0 \<le> N"
  shows "runInv N (s, ts, exits) \<Longrightarrow>
           \<exists>s' exits'. resumeAll N ts s exits = Inr (s', exits') \<and> runInv N (s', [], exits')"
proof (induction ts arbitrary: s exits)
  case Nil
  then show ?case by simp
next
  case (Cons t ts)
  from resume_step_inv [OF N Cons.prems]
  obtain x s1 where r: "ensureCovers_resume N t s = Inr (x, s1)"
    "runInv N (s1, ts, exits @ [x])" by blast
  from Cons.IH [OF r(2)] r(1) show ?case by simp
qed

lemma step_ok:
  assumes N: "0 \<le> N" and ev: "eventOK N ev" and inv: "runInv N st"
  shows "\<exists>st'. step N ev st = Inr st' \<and> runInv N st'"
proof -
  obtain s pend exits where st: "st = (s, pend, exits)" by (cases st) auto
  from inv st have i: "liveOK N (ranges s)" "5 \<le> preferredBlockSize s"
    "withinRows N (targetRange s)" "containsRange (leaveRange s) (targetRange s)"
    "pend \<noteq> [] \<longrightarrow> 0 \<le> targetRow s \<and> targetRow s < N" "list_all (withinRows N) pend"
    "covers (ranges s) (targetRange s) \<or> (pend \<noteq> [] \<and> last pend = targetRange s)
       \<or> (pend = [] \<and> exits \<noteq> [] \<and> last exits = LoopExhausted)"
    by (auto simp: runInv_def)
  show ?thesis
  proof (cases ev)
    case (SetTarget r f)
    with ev have ok: "withinRows N r" "0 \<le> f" "f < N" by (simp_all add: withinRows_def)
    from setTarget_ok [OF N ok(1) i(1), of f]
    obtain t s' where t: "setTarget N r f s = Inr (t, s')" "ranges s' = ranges s"
      "targetRange s' = r" "targetRow s' = f" "preferredBlockSize s' = preferredBlockSize s"
      "containsRange (leaveRange s') r" "t = None \<and> covers (ranges s) r \<or> t = Some r" by blast
    let ?pend' = "pend @ (case t of None \<Rightarrow> [] | Some x \<Rightarrow> [x])"
    have "step N ev st = Inr (s', ?pend', [])"
      using SetTarget st t(1) by (simp add: bindE_def)
    moreover have "runInv N (s', ?pend', [])"
      using t i ok by (auto simp: runInv_def)
    ultimately show ?thesis by blast
  next
    case WritesDrained
    from resumeAll_ok [OF N, of s pend exits] inv st
    obtain s' exits' where r: "resumeAll N pend s exits = Inr (s', exits')"
      "runInv N (s', [], exits')" by blast
    then show ?thesis using WritesDrained st by (simp add: bindE_def)
  next
    case (WorkDone evt u deltaT)
    from doWork_frame [OF N, of evt u deltaT s]
    obtain s' where w: "doWork False N evt u deltaT s = Inr s'" "ranges s' = ranges s"
      "targetRange s' = targetRange s" "leaveRange s' = leaveRange s"
      "targetRow s' = targetRow s" "5 \<le> preferredBlockSize s \<longrightarrow> 5 \<le> preferredBlockSize s'"
      by blast
    have "step N ev st = Inr (s', pend, exits)"
      using WorkDone st w(1) by (simp add: bindE_def)
    moreover have "runInv N (s', pend, exits)"
      using w i by (simp add: runInv_def)
    ultimately show ?thesis by blast
  qed
qed

lemma runEvents_ok:
  assumes N: "0 \<le> N"
  shows "list_all (eventOK N) evs \<Longrightarrow> runInv N st \<Longrightarrow>
           \<exists>st'. runEvents N evs st = Inr st' \<and> runInv N st'"
proof (induction evs arbitrary: st)
  case Nil
  then show ?case by simp
next
  case (Cons ev evs)
  from Cons.prems have ev: "eventOK N ev" and rest: "list_all (eventOK N) evs" by simp_all
  from step_ok [OF N ev Cons.prems(2)]
  obtain st1 where s1: "step N ev st = Inr st1" "runInv N st1" by blast
  from Cons.IH [OF rest s1(2)] s1(1) show ?case by simp
qed


lemma resumeAll_small:
  assumes N: "0 \<le> N"
  shows "runInv N (s, ts, exits) \<Longrightarrow> runInvSmall (s, ts, exits) \<Longrightarrow>
           \<exists>s' exits'. resumeAll N ts s exits = Inr (s', exits')
              \<and> runInvSmall (s', [], exits')"
proof (induction ts arbitrary: s exits)
  case Nil
  then show ?case by simp
next
  case (Cons t ts)
  from resume_step_inv [OF N Cons.prems(1)]
  obtain x s1 where r: "ensureCovers_resume N t s = Inr (x, s1)"
    "runInv N (s1, ts, exits @ [x])" "sameTargets s s1"
    "x = ReturnedCovered \<longrightarrow> covers (ranges s1) t"
    "covers (ranges s) (targetRange s) \<longrightarrow> covers (ranges s1) (targetRange s)" by blast
  have same: "targetRange s1 = targetRange s" "leaveRange s1 = leaveRange s"
    "targetRow s1 = targetRow s" "preferredBlockSize s1 = preferredBlockSize s"
    using r(3) by (simp_all add: sameTargets_def)
  from Cons.prems(2) have sm: "topR (targetRange s) \<le> targetRow s"
    "targetRow s < botR (targetRange s)" "height (targetRange s) \<le> 34"
    "3 * (botR (leaveRange s) - botR (targetRange s)) \<le> height (targetRange s) + 1"
    "3 * (topR (targetRange s) - topR (leaveRange s)) \<le> height (targetRange s) + 1"
    "covers (ranges s) (targetRange s) \<or> last (t # ts) = targetRange s"
    by (auto simp: runInvSmall_def)
  from Cons.prems(1) have inv: "liveOK N (ranges s)" "5 \<le> preferredBlockSize s"
    "withinRows N (targetRange s)" "containsRange (leaveRange s) (targetRange s)"
    by (auto simp: runInv_def)
  have cov: "covers (ranges s1) (targetRange s1) \<or> (ts \<noteq> [] \<and> last ts = targetRange s1)"
  proof (cases "covers (ranges s) (targetRange s)")
    case True
    with r(5) same show ?thesis by simp
  next
    case False
    with sm(6) have l: "last (t # ts) = targetRange s" by blast
    show ?thesis
    proof (cases "ts = []")
      case True
      with l have tt: "t = targetRange s" by simp
      from ensureCovers_resume_reaches [OF N inv(1,2,3,4) sm(1,2,3,4,5)]
      obtain s' where "ensureCovers_resume N (targetRange s) s = Inr (ReturnedCovered, s')"
        by blast
      with r(1) tt have "x = ReturnedCovered" by simp
      with r(4) tt same show ?thesis by simp
    next
      case False
      with l same show ?thesis by simp
    qed
  qed
  have "runInvSmall (s1, ts, exits @ [x])"
    using sm same cov by (simp add: runInvSmall_def)
  from Cons.IH [OF r(2) this] r(1) show ?case by simp
qed

lemma step_small:
  assumes N: "0 \<le> N" and ev: "eventOK N ev" "eventSmall ev"
    and inv: "runInv N st" "runInvSmall st"
  shows "\<exists>st'. step N ev st = Inr st' \<and> runInvSmall st'"
proof -
  obtain s pend exits where st: "st = (s, pend, exits)" by (cases st) auto
  from inv(1) st have i: "liveOK N (ranges s)" by (auto simp: runInv_def)
  show ?thesis
  proof (cases ev)
    case (SetTarget r f)
    with ev have ok: "withinRows N r" "topR r \<le> f" "f < botR r" "height r \<le> 34"
      by (simp_all add: withinRows_def)
    from setTarget_ok [OF N ok(1) i, of f]
    obtain t s' where t: "setTarget N r f s = Inr (t, s')" "ranges s' = ranges s"
      "targetRange s' = r" "targetRow s' = f"
      "t = None \<and> covers (ranges s) r \<or> t = Some r"
      "3 * (botR (leaveRange s') - botR r) \<le> height r + 1"
      "3 * (topR r - topR (leaveRange s')) \<le> height r + 1" by blast
    let ?pend' = "pend @ (case t of None \<Rightarrow> [] | Some x \<Rightarrow> [x])"
    have "step N ev st = Inr (s', ?pend', [])"
      using SetTarget st t(1) by (simp add: bindE_def)
    moreover have "runInvSmall (s', ?pend', [])"
      using t ok by (auto simp: runInvSmall_def)
    ultimately show ?thesis by blast
  next
    case WritesDrained
    from resumeAll_small [OF N, of s pend exits] inv st
    obtain s' exits' where r: "resumeAll N pend s exits = Inr (s', exits')"
      "runInvSmall (s', [], exits')" by blast
    then show ?thesis using WritesDrained st by (simp add: bindE_def)
  next
    case (WorkDone evt u deltaT)
    from doWork_frame [OF N, of evt u deltaT s]
    obtain s' where w: "doWork False N evt u deltaT s = Inr s'" "ranges s' = ranges s"
      "targetRange s' = targetRange s" "leaveRange s' = leaveRange s"
      "targetRow s' = targetRow s" by blast
    have "step N ev st = Inr (s', pend, exits)"
      using WorkDone st w(1) by (simp add: bindE_def)
    moreover have "runInvSmall (s', pend, exits)"
      using w inv(2) st by (simp add: runInvSmall_def)
    ultimately show ?thesis by blast
  qed
qed

lemma runInvSmall_init: "runInvSmall (new_BlockSetImpl, [], [])"
  by (simp add: runInvSmall_def new_BlockSetImpl_def covers_def)

lemma runEvents_small:
  assumes N: "0 \<le> N"
  shows "list_all (eventOK N) evs \<Longrightarrow> list_all eventSmall evs \<Longrightarrow>
           runInv N st \<Longrightarrow> runInvSmall st \<Longrightarrow>
           \<exists>st'. runEvents N evs st = Inr st' \<and> runInvSmall st'"
proof (induction evs arbitrary: st)
  case Nil
  then show ?case by simp
next
  case (Cons ev evs)
  from Cons.prems have ev: "eventOK N ev" "eventSmall ev"
    and rest: "list_all (eventOK N) evs" "list_all eventSmall evs" by simp_all
  from step_ok [OF N ev(1) Cons.prems(3)]
  obtain st1 where s1: "step N ev st = Inr st1" "runInv N st1" by blast
  from step_small [OF N ev Cons.prems(3,4)] s1(1) have s2: "runInvSmall st1" by simp
  from Cons.IH [OF rest s1(2) s2] s1(1) show ?case by simp
qed

lemma liveOK_ordered:
  "liveOK N rs \<Longrightarrow> strictlyOrdered rs \<and> (\<forall>x\<in>set rs. topR (hd rs) \<le> topR x)"
proof (induction rs)
  case Nil
  then show ?case by (simp add: strictlyOrdered_def)
next
  case (Cons r rs)
  then have ih: "strictlyOrdered rs" "\<forall>x\<in>set rs. topR (hd rs) \<le> topR x"
    by (simp_all add: liveOK_Cons)
  show ?case
  proof (cases "rs = []")
    case True
    then show ?thesis by (simp add: strictlyOrdered_def)
  next
    case False
    with Cons.prems have "topR r < botR r" "botR r = topR (hd rs)" by (simp_all add: liveOK_Cons)
    with ih show ?thesis by (auto simp: strictlyOrdered_def)
  qed
qed

lemma liveOK_within: "liveOK N rs \<Longrightarrow> list_all (withinRows N) rs"
  by (auto simp: liveOK_def withinRows_def list_all_iff)

lemma liveOK_heights: "liveOK N (ranges s) \<Longrightarrow> list_all (\<lambda>b. 0 < height (getRange b)) (blocks s)"
  by (auto simp: liveOK_def ranges_def height_def list_all_iff)

lemma createBlockClamped_range:
  "createBlockClamped N r s = Inr (b, s') \<Longrightarrow> getRange b = clampTo r \<lparr>topR = 0, botR = N\<rparr>"
  by (auto simp: createBlockClamped_def new_Range_def bindE_def new_BlockImpl_def getRange_def
           Let_def split: if_splits sum.splits prod.splits)

lemma scrollDown_ok: "list_all (eventOK 1000) scrollDown"
  by (simp add: scrollDown_def)

lemma scrollDown_settles:
  "case runEvents 1000 scrollDown (new_BlockSetImpl, [], []) of
     Inl e \<Rightarrow> False
   | Inr (s, pend, exits) \<Rightarrow> pend = [] \<and> exits \<noteq> [] \<and> last exits = ReturnedCovered
        \<and> targetRange s = \<lparr>topR = 140, botR = 170\<rparr>"
  by code_simp

text \<open>C1, as stated: after any calls of \<^verbatim>\<open>setTarget\<close> with ranges within \<open>[0, N)\<close>, once
  \<^verbatim>\<open>ensureCovers\<close> has completed, the live blocks would be a contiguous cover of the target.
  With 1000 rows, the target \<open>[0, 1000)\<close> and the focus 500, \<^verbatim>\<open>ensureCovers\<close> stops after its
  10 rounds with the rows \<open>[301, 700)\<close> covered. With 100 rows, the target \<open>[0, 10)\<close> and the
  focus \<open>-1000\<close>, it leaves eleven empty blocks that do not touch one another, far from the
  target.\<close>

theorem capped_or_misplaced_cover_fails:
  "(case runEvents 1000 [SetTarget \<lparr>topR = 0, botR = 1000\<rparr> 500, WritesDrained]
           (new_BlockSetImpl, [], []) of
      Inl e \<Rightarrow> False
    | Inr (s, pend, exits) \<Rightarrow>
        pend = [] \<and> targetRange s = \<lparr>topR = 0, botR = 1000\<rparr>
        \<and> getCoveredRange s = Inr \<lparr>topR = 301, botR = 700\<rparr>
        \<and> \<not> containsRange \<lparr>topR = 301, botR = 700\<rparr> (targetRange s))
   \<and> (case runEvents 100 [SetTarget \<lparr>topR = 0, botR = 10\<rparr> (- 1000), WritesDrained]
           (new_BlockSetImpl, [], []) of
      Inl e \<Rightarrow> False
    | Inr (s, pend, exits) \<Rightarrow>
        pend = [] \<and> \<not> contiguous (ranges s)
        \<and> getCoveredRange s = Inr \<lparr>topR = - 990, botR = - 800\<rparr>
        \<and> \<not> containsRange \<lparr>topR = - 990, botR = - 800\<rparr> (targetRange s))"
  by code_simp

text \<open>C1, amended. Take any calls of \<^verbatim>\<open>setTarget\<close>, each with its range within \<open>[0, N)\<close> and
  its focus a row of \<open>[0, N)\<close>, with write phases and calls of \<^verbatim>\<open>doWork\<close> between them in any
  order. No run of \<^verbatim>\<open>ensureCovers\<close> throws, and after every one of these steps the live
  blocks are contiguous, strictly ordered and within \<open>[0, N)\<close>. When no run of \<^verbatim>\<open>ensureCovers\<close>
  is left waiting, the blocks cover the target range in each of these cases: no run has been
  resumed since the last call of \<^verbatim>\<open>setTarget\<close>; the run resumed last returned from inside its
  loop; every call of \<^verbatim>\<open>setTarget\<close> so far had its focus inside its range and a range of at
  most 34 rows. In the third case a run can still be cut off after its 10 rounds, one that
  was begun for an earlier target and resumed after the target had moved on: it keeps the
  target it began with, and the blocks cover the current target all the same.\<close>

theorem settled_blocks_cover_target:
  assumes "0 \<le> N" and "list_all (eventOK N) evs"
  shows "\<exists>s pend exits. runEvents N evs (new_BlockSetImpl, [], []) = Inr (s, pend, exits)
     \<and> contiguous (ranges s) \<and> strictlyOrdered (ranges s) \<and> list_all (withinRows N) (ranges s)
     \<and> (pend = [] \<and> (exits = [] \<or> last exits = ReturnedCovered \<or> list_all eventSmall evs)
          \<longrightarrow> (\<exists>c. getCoveredRange s = Inr c \<and> containsRange c (targetRange s)))"
proof -
  from runEvents_ok [OF assms(1) assms(2) runInv_init [OF assms(1)]]
  obtain st where st: "runEvents N evs (new_BlockSetImpl, [], []) = Inr st" "runInv N st" by blast
  obtain s pend exits where e: "st = (s, pend, exits)" by (cases st) auto
  from st(2) e have i: "liveOK N (ranges s)" "withinRows N (targetRange s)"
    "covers (ranges s) (targetRange s) \<or> (pend \<noteq> [] \<and> last pend = targetRange s)
       \<or> (pend = [] \<and> exits \<noteq> [] \<and> last exits = LoopExhausted)"
    by (auto simp: runInv_def)
  have sm: "list_all eventSmall evs \<longrightarrow>
              covers (ranges s) (targetRange s) \<or> (pend \<noteq> [] \<and> last pend = targetRange s)"
  proof
    assume "list_all eventSmall evs"
    from runEvents_small [OF assms(1) assms(2) this runInv_init [OF assms(1)] runInvSmall_init]
      st(1) e
    show "covers (ranges s) (targetRange s) \<or> (pend \<noteq> [] \<and> last pend = targetRange s)"
      by (auto simp: runInvSmall_def)
  qed
  have c: "getCoveredRange s = Inr (coveredOf (ranges s))" by (rule getCoveredRange_ok [OF i(1)])
  have "topR (targetRange s) \<le> botR (targetRange s)" using i(2) by (simp add: withinRows_def)
  from contains_covered [OF i(1) this]
  have cc: "containsRange (coveredOf (ranges s)) (targetRange s) = covers (ranges s) (targetRange s)" .
  have "pend = [] \<and> (exits = [] \<or> last exits = ReturnedCovered \<or> list_all eventSmall evs)
          \<longrightarrow> (\<exists>c. getCoveredRange s = Inr c \<and> containsRange c (targetRange s))"
    using i(3) sm c cc by auto
  moreover have "contiguous (ranges s)" using i(1) by (simp add: liveOK_def)
  moreover have "strictlyOrdered (ranges s)" using liveOK_ordered [OF i(1)] by simp
  moreover have "list_all (withinRows N) (ranges s)" by (rule liveOK_within [OF i(1)])
  ultimately show ?thesis using st(1) e by blast
qed

theorem settled_blocks_cover_target_witness:
  "\<exists>s exits. runEvents 1000 scrollDown (new_BlockSetImpl, [], []) = Inr (s, [], exits)
     \<and> last exits = ReturnedCovered
     \<and> contiguous (ranges s) \<and> strictlyOrdered (ranges s) \<and> list_all (withinRows 1000) (ranges s)
     \<and> (\<exists>c. getCoveredRange s = Inr c \<and> containsRange c \<lparr>topR = 140, botR = 170\<rparr>)"
proof -
  have N: "(0::int) \<le> 1000" by simp
  from settled_blocks_cover_target [OF N scrollDown_ok]
  obtain s pend exits where r:
    "runEvents 1000 scrollDown (new_BlockSetImpl, [], []) = Inr (s, pend, exits)"
    "contiguous (ranges s)" "strictlyOrdered (ranges s)" "list_all (withinRows 1000) (ranges s)"
    "pend = [] \<and> (exits = [] \<or> last exits = ReturnedCovered \<or> list_all eventSmall scrollDown)
       \<longrightarrow> (\<exists>c. getCoveredRange s = Inr c \<and> containsRange c (targetRange s))"
    by blast
  from scrollDown_settles r(1)
  have e: "pend = []" "last exits = ReturnedCovered" "targetRange s = \<lparr>topR = 140, botR = 170\<rparr>"
    by simp_all
  with r show ?thesis by auto
qed

text \<open>The calls of \<^verbatim>\<open>setTarget\<close> that the coordinator makes have their range within \<open>[0, N)\<close>
  and their focus a row of the range: \<^verbatim>\<open>getClampedRowAtPx\<close> returns rows of \<open>[0, N)\<close>.\<close>

lemma updateViewport_target_ok:
  assumes "0 \<le> a" and "a \<le> b" and "b < N"
  shows "\<exists>r f. updateViewport_target a b = Inr (SetTarget r f)
           \<and> eventOK N (SetTarget r f) \<and> containsNum r f"
proof -
  have m: "a \<le> (a + (b + 1)) div 2" "(a + (b + 1)) div 2 \<le> b"
    using assms(2) by linarith+
  with assms show ?thesis
    by (simp add: updateViewport_target_def new_Range_def bindE_def Let_def containsNum_def)
qed

text \<open>C2. Every block is built by \<^verbatim>\<open>createBlockClamped\<close>, on the range clamped to \<open>[0, N)\<close>.
  After any calls of \<^verbatim>\<open>setTarget\<close>, each with its range within \<open>[0, N)\<close> and its focus a row
  of \<open>[0, N)\<close>, with write phases and calls of \<^verbatim>\<open>doWork\<close> between them in any order, no run of
  \<^verbatim>\<open>ensureCovers\<close> throws and every live block has a range of positive height: the block list
  has not gained a block of height 0.\<close>

theorem no_empty_block_for_row_targets:
  assumes "0 \<le> N" and "list_all (eventOK N) evs"
  shows "(\<exists>s pend exits. runEvents N evs (new_BlockSetImpl, [], []) = Inr (s, pend, exits)
            \<and> list_all (\<lambda>b. 0 < height (getRange b)) (blocks s))
     \<and> (\<forall>r s b s'. createBlockClamped N r s = Inr (b, s')
            \<longrightarrow> getRange b = clampTo r \<lparr>topR = 0, botR = N\<rparr>)"
proof -
  from runEvents_ok [OF assms(1) assms(2) runInv_init [OF assms(1)]]
  obtain st where st: "runEvents N evs (new_BlockSetImpl, [], []) = Inr st" "runInv N st" by blast
  obtain s pend exits where e: "st = (s, pend, exits)" by (cases st) auto
  from st(2) e have "liveOK N (ranges s)" by (auto simp: runInv_def)
  from liveOK_heights [OF this] st(1) e createBlockClamped_range show ?thesis by blast
qed

theorem no_empty_block_for_row_targets_witness:
  "(\<exists>s pend exits. runEvents 1000 scrollDown (new_BlockSetImpl, [], []) = Inr (s, pend, exits)
       \<and> list_all (\<lambda>b. 0 < height (getRange b)) (blocks s))
   \<and> (\<exists>b s'. createBlockClamped 1000 \<lparr>topR = - 5, botR = 14\<rparr> new_BlockSetImpl = Inr (b, s')
         \<and> getRange b = clampTo \<lparr>topR = - 5, botR = 14\<rparr> \<lparr>topR = 0, botR = 1000\<rparr>
         \<and> getRange b = \<lparr>topR = 0, botR = 14\<rparr>)"
proof -
  have N: "(0::int) \<le> 1000" by simp
  note t = no_empty_block_for_row_targets [OF N scrollDown_ok]
  have c: "\<exists>b s'. createBlockClamped 1000 \<lparr>topR = - 5, botR = 14\<rparr> new_BlockSetImpl = Inr (b, s')
             \<and> getRange b = \<lparr>topR = 0, botR = 14\<rparr>"
    using createBlockClamped_ok [of 1000 "\<lparr>topR = - 5, botR = 14\<rparr>" new_BlockSetImpl]
    by auto
  from t c show ?thesis by metis
qed

end
